theory Spec2Isabelle
  imports Complex_Main "HOL-Library.Sublist" "HOL-Library.AList" "HOL-Library.Multiset"
begin

section \<open>The cleaning pass of notebooks/togo\_eda.ipynb\<close>

text \<open>
  The notebook loads a table with pandas, profiles it (cell 7ad52592), flags outliers by
  z-score (cell bf5f2149) and cleans it (cell 35dd3e22). The table is modelled from the
  point where \<^verbatim>\<open>read_csv\<close> has returned it, up to the frame that cell 07f72b2d writes
  out with \<^verbatim>\<open>to_csv\<close>. Floating-point numbers are modelled as real numbers, with the
  value \<^verbatim>\<open>nan\<close> kept as a cell of its own. The calls that only display
  (\<^verbatim>\<open>describe\<close>, \<^verbatim>\<open>display\<close>, \<^verbatim>\<open>head\<close>, the plots) and the renumbering of the row index
  (\<^verbatim>\<open>reset_index\<close>) change no cell and are left out.
\<close>

subsection \<open>Data model\<close>

text \<open>
  A cell of the table: a missing value, a number (integer or float), a boolean or a
  timestamp.
\<close>

datatype cell = NaN | Num real | Flag bool | Stamp int

text \<open>The exceptions the pandas calls of the three cells can raise.\<close>

datatype error = KeyError "string list" | TypeError

text \<open>
  A row holds one cell per column, in column order. A data frame is its column index and
  its rows.
\<close>

type_synonym row = "(string \<times> cell) list"

record dataframe =
  columns :: "string list"
  rows :: "row list"

text \<open>Every row has exactly the columns of the index, in its order.\<close>

definition wf :: "dataframe \<Rightarrow> bool" where
  "wf df = (\<forall>r \<in> set (rows df). map fst r = columns df)"

text \<open>The cell of a row under a column; a row without the column reads as missing.\<close>

definition cell_at :: "row \<Rightarrow> string \<Rightarrow> cell" where
  "cell_at r c = (case map_of r c of Some v \<Rightarrow> v | None \<Rightarrow> NaN)"

text \<open>\<^verbatim>\<open>df[col]\<close>, read.\<close>

definition column :: "dataframe \<Rightarrow> string \<Rightarrow> cell list" where
  "column df c = map (\<lambda>r. cell_at r c) (rows df)"

text \<open>
  \<^verbatim>\<open>df[name] = vals\<close>: an existing column is overwritten in place, a new one is appended.
  The values are assigned by position; the source only assigns arrays of the frame's own
  length.
\<close>

definition set_column :: "dataframe \<Rightarrow> string \<Rightarrow> cell list \<Rightarrow> dataframe" where
  "set_column df name vals =
     df\<lparr>columns := (if name \<in> set (columns df) then columns df else columns df @ [name]),
        rows := map (\<lambda>(r, v). AList.update name v r) (zip (rows df) vals)\<rparr>"

subsection \<open>Statistics\<close>

text \<open>
  The float of a cell, \<open>None\<close> for \<^verbatim>\<open>nan\<close>. Booleans convert to 1.0 and 0.0. A timestamp
  has no float: \<open>astype_float\<close> raises on it, and the other readers are reached only on
  columns that \<open>astype_float\<close> has accepted.
\<close>

fun float_of :: "cell \<Rightarrow> real option" where
  "float_of NaN = None"
| "float_of (Num x) = Some x"
| "float_of (Flag b) = Some (if b then 1 else 0)"
| "float_of (Stamp t) = None"

fun is_stamp :: "cell \<Rightarrow> bool" where
  "is_stamp (Stamp t) = True"
| "is_stamp _ = False"

text \<open>
  \<^verbatim>\<open>series.astype(float)\<close>. pandas refuses by the type of the column, the model by its
  cells: the two agree on every column that has a cell, and the columns of \<^verbatim>\<open>key_cols\<close>
  are not parsed as dates.
\<close>

definition astype_float :: "cell list \<Rightarrow> error + real option list" where
  "astype_float cs = (if list_ex is_stamp cs then Inl TypeError else Inr (map float_of cs))"

text \<open>The values that are not \<^verbatim>\<open>nan\<close> (\<^verbatim>\<open>nan_policy='omit'\<close>, \<^verbatim>\<open>skipna\<close>).\<close>

fun omit_nan :: "real option list \<Rightarrow> real list" where
  "omit_nan [] = []"
| "omit_nan (None # a) = omit_nan a"
| "omit_nan (Some x # a) = x # omit_nan a"

definition mean :: "real list \<Rightarrow> real" where
  "mean xs = sum_list xs / real (length xs)"

text \<open>
  Mean, variance, standard deviation, z-score and median are the exact ones of the real
  numbers. The source computes them in float64, so its values differ by rounding, and at
  magnitudes whose squares overflow or underflow its flags can differ from the exact ones.
  The statements on the order of the steps, on rows and on columns hold for any values of
  the statistics; the runs on the example tables lie far from the threshold.
\<close>

text \<open>The population variance and standard deviation (\<^verbatim>\<open>ddof=0\<close>).\<close>

definition var :: "real list \<Rightarrow> real" where
  "var xs = sum_list (map (\<lambda>x. (x - mean xs)\<^sup>2) xs) / real (length xs)"

definition std :: "real list \<Rightarrow> real" where
  "std xs = sqrt (var xs)"

text \<open>
  The z-score of one entry against the values \<open>xs\<close>: \<^verbatim>\<open>nan\<close> stays \<^verbatim>\<open>nan\<close>, and a
  constant column (standard deviation 0) gives \<^verbatim>\<open>nan\<close> for every entry.
\<close>

fun z_of :: "real list \<Rightarrow> real option \<Rightarrow> real option" where
  "z_of xs None = None"
| "z_of xs (Some x) = (if std xs = 0 then None else Some ((x - mean xs) / std xs))"

text \<open>\<^verbatim>\<open>scipy.stats.zscore(a, nan_policy='omit')\<close>.\<close>

definition zscore :: "real option list \<Rightarrow> real option list" where
  "zscore a = map (z_of (omit_nan a)) a"

fun float_cell :: "real option \<Rightarrow> cell" where
  "float_cell None = NaN"
| "float_cell (Some x) = Num x"

text \<open>\<^verbatim>\<open>series.abs() > 3\<close> on one entry of a float column; \<^verbatim>\<open>nan > 3\<close> is false.\<close>

fun abs_gt3 :: "cell \<Rightarrow> cell" where
  "abs_gt3 (Num z) = Flag (\<bar>z\<bar> > 3)"
| "abs_gt3 _ = Flag False"

definition median_val :: "real list \<Rightarrow> real" where
  "median_val xs =
     (let s = sort xs; n = length s
      in if even n then (s ! (n div 2 - 1) + s ! (n div 2)) / 2 else s ! (n div 2))"

text \<open>\<^verbatim>\<open>series.median()\<close>: the median of the values present, \<^verbatim>\<open>nan\<close> when there is none.\<close>

definition median :: "cell list \<Rightarrow> cell" where
  "median cs =
     (let xs = omit_nan (map float_of cs) in if xs = [] then NaN else Num (median_val xs))"

subsection \<open>Cell 7ad52592: the missing value report\<close>

definition count_na :: "cell list \<Rightarrow> nat" where
  "count_na cs = length (filter (\<lambda>c. c = NaN) cs)"

text \<open>
  One line per column with at least one missing value: the column, its count of missing
  values and the percentage of the rows. (A line exists only in a frame with rows, so the
  percentage never divides by zero.)
\<close>

definition missing_report :: "dataframe \<Rightarrow> (string \<times> nat \<times> real) list" where
  "missing_report df =
     filter (\<lambda>(c, n, p). n > 0)
       (map (\<lambda>c. (c, count_na (column df c),
                   100 * real (count_na (column df c)) / real (length (rows df))))
            (columns df))"

subsection \<open>Cell bf5f2149: outlier detection\<close>

definition zscore_name :: "string \<Rightarrow> string" where
  "zscore_name col = col @ ''_zscore''"

definition outlier_name :: "string \<Rightarrow> string" where
  "outlier_name col = col @ ''_outlier''"

text \<open>The body of the loop, for a column that is in the frame.\<close>

definition detect_col :: "string \<Rightarrow> dataframe \<Rightarrow> error + dataframe" where
  "detect_col col df =
     (case astype_float (column df col) of
        Inl e \<Rightarrow> Inl e
      | Inr a \<Rightarrow>
          let df1 = set_column df (zscore_name col) (map float_cell (zscore a))
          in Inr (set_column df1 (outlier_name col)
                    (map abs_gt3 (column df1 (zscore_name col)))))"

fun detect :: "string list \<Rightarrow> dataframe \<Rightarrow> error + dataframe" where
  "detect [] df = Inr df"
| "detect (col # cols) df =
     (if col \<in> set (columns df)
      then (case detect_col col df of Inl e \<Rightarrow> Inl e | Inr df' \<Rightarrow> detect cols df')
      else detect cols df)"

text \<open>
  \<^verbatim>\<open>series.sum()\<close>: missing values are skipped, a boolean counts as 1 or 0, and the sum
  of timestamps raises.
\<close>

fun sum_cell :: "cell \<Rightarrow> real" where
  "sum_cell (Num x) = x"
| "sum_cell (Flag b) = (if b then 1 else 0)"
| "sum_cell _ = 0"

definition col_sum :: "cell list \<Rightarrow> real" where
  "col_sum cs = sum_list (map sum_cell cs)"

text \<open>The dictionary \<^verbatim>\<open>outlier_counts\<close>.\<close>

definition outlier_counts :: "dataframe \<Rightarrow> string list \<Rightarrow> error + (string \<rightharpoonup> real)" where
  "outlier_counts df key_cols =
     (if list_ex (\<lambda>col. outlier_name col \<in> set (columns df)
                        \<and> list_ex is_stamp (column df (outlier_name col))) key_cols
      then Inl TypeError
      else Inr (\<lambda>col. if col \<in> set key_cols \<and> outlier_name col \<in> set (columns df)
                      then Some (col_sum (column df (outlier_name col))) else None))"

subsection \<open>Cell 35dd3e22: imputation, dropping and stripping\<close>

text \<open>
  \<^verbatim>\<open>df[col].fillna(v, inplace=True)\<close>, taken to write through to the frame, as it does
  in the pandas versions that accept the notebook's \<^verbatim>\<open>read_csv\<close> call. Filling with
  \<^verbatim>\<open>nan\<close> (the median of a column without values) leaves the column as it is.
\<close>

definition fillna :: "dataframe \<Rightarrow> string \<Rightarrow> cell \<Rightarrow> dataframe" where
  "fillna df col v =
     df\<lparr>rows := map (\<lambda>r. if cell_at r col = NaN then AList.update col v r else r) (rows df)\<rparr>"

fun impute :: "string list \<Rightarrow> dataframe \<Rightarrow> dataframe" where
  "impute [] df = df"
| "impute (col # cols) df =
     (if col \<in> set (columns df)
      then (if count_na (column df col) > 0
            then impute cols (fillna df col (median (column df col)))
            else impute cols df)
      else impute cols df)"

text \<open>
  \<^verbatim>\<open>df.dropna(subset=key_cols, inplace=True)\<close>: pandas raises a KeyError that lists the
  labels of the subset that are not columns of the frame.
\<close>

definition dropna :: "dataframe \<Rightarrow> string list \<Rightarrow> error + dataframe" where
  "dropna df labels =
     (let absent = filter (\<lambda>c. c \<notin> set (columns df)) labels
      in if absent \<noteq> [] then Inl (KeyError absent)
         else Inr (df\<lparr>rows := filter (\<lambda>r. \<forall>c \<in> set labels. cell_at r c \<noteq> NaN) (rows df)\<rparr>))"

fun is_flag :: "cell \<Rightarrow> bool" where
  "is_flag (Flag b) = True"
| "is_flag _ = False"

text \<open>
  \<^verbatim>\<open>df = df[~df[name]]\<close>: the rows whose flag is false are kept. A column that is not
  boolean cannot be negated into a mask: the source raises (a TypeError on floats, a
  KeyError on the integers that negation gives); the model returns \<open>TypeError\<close> for both.
\<close>

definition drop_flagged :: "dataframe \<Rightarrow> string \<Rightarrow> error + dataframe" where
  "drop_flagged df name =
     (if list_all is_flag (column df name)
      then Inr (df\<lparr>rows := filter (\<lambda>r. cell_at r name = Flag False) (rows df)\<rparr>)
      else Inl TypeError)"

fun remove_outliers :: "string list \<Rightarrow> dataframe \<Rightarrow> error + dataframe" where
  "remove_outliers [] df = Inr df"
| "remove_outliers (col # cols) df =
     (if outlier_name col \<in> set (columns df)
      then (case drop_flagged df (outlier_name col) of
              Inl e \<Rightarrow> Inl e
            | Inr df' \<Rightarrow> remove_outliers cols df')
      else remove_outliers cols df)"

text \<open>\<^verbatim>\<open>c.endswith('_zscore') or c.endswith('_outlier')\<close>.\<close>

definition diagnostic :: "string \<Rightarrow> bool" where
  "diagnostic c = (suffix ''_zscore'' c \<or> suffix ''_outlier'' c)"

text \<open>\<^verbatim>\<open>df.drop(columns=[c for c in df.columns if ...], inplace=True)\<close>.\<close>

definition drop_diagnostic :: "dataframe \<Rightarrow> dataframe" where
  "drop_diagnostic df =
     (let dropped = filter diagnostic (columns df)
      in df\<lparr>columns := filter (\<lambda>c. c \<notin> set dropped) (columns df),
            rows := map (filter (\<lambda>(c, v). c \<notin> set dropped)) (rows df)\<rparr>)"

subsection \<open>The pipeline\<close>

text \<open>
  The three cells in the order the notebook runs them, with the list \<^verbatim>\<open>key_cols\<close> as a
  parameter. The result is the cleaned frame with the two reports; an exception of any
  step ends the run.
\<close>

definition clean ::
  "dataframe \<Rightarrow> string list
     \<Rightarrow> error + (dataframe \<times> (string \<times> nat \<times> real) list \<times> (string \<rightharpoonup> real))" where
  "clean df key_cols =
     (case detect key_cols df of
        Inl e \<Rightarrow> Inl e
      | Inr df1 \<Rightarrow>
         (case outlier_counts df1 key_cols of
            Inl e \<Rightarrow> Inl e
          | Inr counts \<Rightarrow>
             (case dropna (impute key_cols df1) key_cols of
                Inl e \<Rightarrow> Inl e
              | Inr df2 \<Rightarrow>
                 (case remove_outliers key_cols df2 of
                    Inl e \<Rightarrow> Inl e
                  | Inr df3 \<Rightarrow> Inr (drop_diagnostic df3, missing_report df, counts)))))"

text \<open>The list \<^verbatim>\<open>key_cols\<close> of the notebook.\<close>

definition key_cols :: "string list" where
  "key_cols = [''GHI'', ''DNI'', ''DHI'', ''ModA'', ''ModB'', ''WS'', ''WSgust'']"


subsection \<open>Notions used in the statements\<close>

text \<open>The cleaned data set of a run that completes.\<close>

definition cleaned :: "dataframe \<Rightarrow> string list \<Rightarrow> dataframe option" where
  "cleaned df keys = (case clean df keys of Inl e \<Rightarrow> None | Inr (out, mr, oc) \<Rightarrow> Some out)"

text \<open>The exception of a run, if it raises.\<close>

definition failure :: "dataframe \<Rightarrow> string list \<Rightarrow> error option" where
  "failure df keys = (case clean df keys of Inl e \<Rightarrow> Some e | Inr res \<Rightarrow> None)"

text \<open>The entry of a column in the dictionary \<^verbatim>\<open>outlier_counts\<close> of a run that completes.\<close>

definition outliers_reported :: "dataframe \<Rightarrow> string list \<Rightarrow> string \<Rightarrow> real option" where
  "outliers_reported df keys col =
     (case clean df keys of Inl e \<Rightarrow> None | Inr (out, mr, oc) \<Rightarrow> oc col)"

text \<open>The values present in a column, as floats: what the statistics of the column range over.\<close>

definition col_vals :: "dataframe \<Rightarrow> string \<Rightarrow> real list" where
  "col_vals df c = omit_nan (map float_of (column df c))"

text \<open>
  An entry is flagged against the values \<open>xs\<close>: its z-score exists and exceeds 3 in
  absolute value.
\<close>

definition flagged :: "real list \<Rightarrow> real option \<Rightarrow> bool" where
  "flagged xs v = (case z_of xs v of None \<Rightarrow> False | Some z \<Rightarrow> \<bar>z\<bar> > 3)"

text \<open>The column index after an assignment to the column \<open>n\<close>.\<close>

definition add_col :: "string \<Rightarrow> string list \<Rightarrow> string list" where
  "add_col n cs = (if n \<in> set cs then cs else cs @ [n])"

text \<open>The columns a run of the detection loop over the keys can write.\<close>

definition touched :: "string list \<Rightarrow> string set" where
  "touched keys = zscore_name ` set keys \<union> outlier_name ` set keys"

text \<open>A column of booleans; a column without a timestamp.\<close>

definition all_flag :: "dataframe \<Rightarrow> string \<Rightarrow> bool" where
  "all_flag df x = list_all is_flag (column df x)"

definition no_stamp :: "dataframe \<Rightarrow> string \<Rightarrow> bool" where
  "no_stamp df x = (\<not> list_ex is_stamp (column df x))"

subsection \<open>The steps as the specification words them\<close>

text \<open>
  Step 1: a row is flagged for a target column when the z-score of its value, against the
  mean and standard deviation of the values present in that column of the input, exceeds
  the threshold.
\<close>

definition spec_flag :: "dataframe \<Rightarrow> string \<Rightarrow> row \<Rightarrow> bool" where
  "spec_flag df c r = flagged (col_vals df c) (float_of (cell_at r c))"

text \<open>
  Step 2: a missing value of a target column is replaced by the median of the values
  present in that column of the input.
\<close>

definition spec_impute :: "dataframe \<Rightarrow> string list \<Rightarrow> row \<Rightarrow> string \<Rightarrow> cell" where
  "spec_impute df keys r c =
     (if c \<in> set keys \<and> cell_at r c = NaN then median (column df c) else cell_at r c)"

text \<open>
  Steps 3 and 4: a row is kept when, after step 2, it misses no value of a target column,
  and step 1 flagged it for no target column.
\<close>

definition spec_keep :: "dataframe \<Rightarrow> string list \<Rightarrow> row \<Rightarrow> bool" where
  "spec_keep df keys r =
     ((\<forall>c \<in> set keys. spec_impute df keys r c \<noteq> NaN) \<and> (\<forall>c \<in> set keys. \<not> spec_flag df c r))"

text \<open>The column \<open>c\<close> of the result of the four steps.\<close>

definition spec_column :: "dataframe \<Rightarrow> string list \<Rightarrow> string \<Rightarrow> cell list" where
  "spec_column df keys c =
     map (\<lambda>r. spec_impute df keys r c) (filter (spec_keep df keys) (rows df))"

subsection \<open>Example tables\<close>

text \<open>A table from its column names and the cells of its rows.\<close>

definition frame_of :: "string list \<Rightarrow> cell list list \<Rightarrow> dataframe" where
  "frame_of cols vals = \<lparr>columns = cols, rows = map (zip cols) vals\<rparr>"

text \<open>The scenario of the specification: one column GHI, with an extreme and a missing value.\<close>

definition ghi_example :: dataframe where
  "ghi_example = frame_of [''GHI''] [[Num 10], [Num 12], [Num 11], [Num 1000], [NaN]]"

text \<open>Three readings, the second without values, cleaned for GHI alone.\<close>

definition sensor_example :: dataframe where
  "sensor_example = frame_of [''Timestamp'', ''GHI'', ''Tamb'']
     [[Stamp 0, Num 5, Num 20], [Stamp 1, NaN, NaN], [Stamp 2, Num 7, Num 21]]"

definition sensor_cleaned :: dataframe where
  "sensor_cleaned = frame_of [''Timestamp'', ''GHI'', ''Tamb'']
     [[Stamp 0, Num 5, Num 20], [Stamp 1, Num 6, NaN], [Stamp 2, Num 7, Num 21]]"

text \<open>A table that brings a quality flag of its own, in a column named like a flag column.\<close>

definition qc_example :: dataframe where
  "qc_example = frame_of [''GHI'', ''Sensor_outlier''] [[Num 1, Flag False], [Num 2, Flag True]]"

text \<open>
  Thirteen readings of GHI: an extreme one, a missing one, a small one and ten zeros; what
  a first and a second run leave of them.
\<close>

definition spike_example :: dataframe where
  "spike_example = frame_of [''GHI'']
       [[Num 1000], [NaN], [Num 1],
        [Num 0], [Num 0], [Num 0], [Num 0], [Num 0], [Num 0], [Num 0], [Num 0], [Num 0], [Num 0]]"

definition spike_cleaned :: dataframe where
  "spike_cleaned = frame_of [''GHI'']
       [[Num 0], [Num 1],
        [Num 0], [Num 0], [Num 0], [Num 0], [Num 0], [Num 0], [Num 0], [Num 0], [Num 0], [Num 0]]"

definition spike_recleaned :: dataframe where
  "spike_recleaned = frame_of [''GHI'']
       [[Num 0],
        [Num 0], [Num 0], [Num 0], [Num 0], [Num 0], [Num 0], [Num 0], [Num 0], [Num 0], [Num 0]]"

text \<open>A table whose column GHI is constant where it is present.\<close>

definition const_example :: dataframe where
  "const_example = frame_of [''GHI'', ''WS'']
     [[Num 5, Num 1], [Num 5, Num 2], [NaN, Num 3], [Num 5, Num 4]]"

text \<open>
  Tables with the columns of the notebook's data: a timestamp and the seven columns of
  \<^verbatim>\<open>key_cols\<close>. A reading has a value for GHI and zero in the other six columns.
\<close>

definition station_cols :: "string list" where
  "station_cols = ''Timestamp'' # key_cols"

definition reading :: "int \<Rightarrow> cell \<Rightarrow> cell list" where
  "reading t ghi = [Stamp t, ghi, Num 0, Num 0, Num 0, Num 0, Num 0, Num 0]"

text \<open>The thirteen readings above, what a first run leaves of them, and what a second run leaves.\<close>

definition station_example :: dataframe where
  "station_example = frame_of station_cols
     [reading 0 (Num 1000), reading 1 NaN, reading 2 (Num 1), reading 3 (Num 0),
      reading 4 (Num 0), reading 5 (Num 0), reading 6 (Num 0), reading 7 (Num 0),
      reading 8 (Num 0), reading 9 (Num 0), reading 10 (Num 0), reading 11 (Num 0),
      reading 12 (Num 0)]"

definition station_cleaned :: dataframe where
  "station_cleaned = frame_of station_cols
     [reading 1 (Num 0), reading 2 (Num 1), reading 3 (Num 0),
      reading 4 (Num 0), reading 5 (Num 0), reading 6 (Num 0), reading 7 (Num 0),
      reading 8 (Num 0), reading 9 (Num 0), reading 10 (Num 0), reading 11 (Num 0),
      reading 12 (Num 0)]"

definition station_recleaned :: dataframe where
  "station_recleaned = frame_of station_cols
     [reading 1 (Num 0), reading 3 (Num 0),
      reading 4 (Num 0), reading 5 (Num 0), reading 6 (Num 0), reading 7 (Num 0),
      reading 8 (Num 0), reading 9 (Num 0), reading 10 (Num 0), reading 11 (Num 0),
      reading 12 (Num 0)]"

text \<open>The scenario of the specification, in a table with all the columns of \<^verbatim>\<open>key_cols\<close>.\<close>

definition ghi_station :: dataframe where
  "ghi_station = frame_of station_cols
     [reading 0 (Num 10), reading 1 (Num 12), reading 2 (Num 11), reading 3 (Num 1000),
      reading 4 NaN]"

definition ghi_station_cleaned :: dataframe where
  "ghi_station_cleaned = frame_of station_cols
     [reading 0 (Num 10), reading 1 (Num 12), reading 2 (Num 11), reading 3 (Num 1000),
      reading 4 (Num (23 / 2))]"

text \<open>Two readings with a quality flag of the station in a last column.\<close>

definition qc_station :: dataframe where
  "qc_station = frame_of (station_cols @ [''Sensor_outlier''])
     [reading 0 (Num 1) @ [Flag False], reading 1 (Num 2) @ [Flag True]]"

text \<open>Two readings of a station without the last column of \<^verbatim>\<open>key_cols\<close>, WSgust.\<close>

definition partial_station :: dataframe where
  "partial_station = frame_of (butlast station_cols)
     [butlast (reading 0 (Num 1)), butlast (reading 1 NaN)]"

section \<open>Basic facts\<close>

subsection \<open>Cells, rows and assignments\<close>

lemma cell_at_update: "cell_at (AList.update k v r) c = (if c = k then v else cell_at r c)"
  by (simp add: cell_at_def update_conv')

lemma map_of_drop: "map_of (filter (\<lambda>(c, v). c \<notin> D) r) x = (if x \<in> D then None else map_of r x)"
  by (induction r) auto

lemma cell_at_drop: "cell_at (filter (\<lambda>(c, v). c \<notin> D) r) x = (if x \<in> D then NaN else cell_at r x)"
  by (simp add: cell_at_def map_of_drop)

lemma zip_map_self: "map (\<lambda>(r, v). h r v) (zip rs (map g rs)) = map (\<lambda>r. h r (g r)) rs"
  by (induction rs) auto

lemma rows_set_column:
  "rows (set_column df name (map g (rows df))) = map (\<lambda>r. AList.update name (g r) r) (rows df)"
  by (simp add: set_column_def zip_map_self)

subsection \<open>The detection loop\<close>

lemma abs_gt3_flagged: "abs_gt3 (float_cell (z_of xs v)) = Flag (flagged xs v)"
  by (cases v) (auto simp: flagged_def)

lemma name_neq [simp]: "zscore_name c \<noteq> c" "c \<noteq> zscore_name c" "outlier_name c \<noteq> c" "c \<noteq> outlier_name c"
  by (simp_all add: zscore_name_def outlier_name_def)

lemma detect_col_Inr:
  assumes "detect_col col df = Inr d"
  shows "columns d = add_col (outlier_name col) (add_col (zscore_name col) (columns df))"
    and "rows d = map (\<lambda>r. AList.update (outlier_name col)
                         (Flag (flagged (col_vals df col) (float_of (cell_at r col))))
                       (AList.update (zscore_name col)
                         (float_cell (z_of (col_vals df col) (float_of (cell_at r col)))) r))
                    (rows df)"
    and "\<not> list_ex is_stamp (column df col)"
proof -
  from assms have ns: "\<not> list_ex is_stamp (column df col)"
    and a: "astype_float (column df col) = Inr (map float_of (column df col))"
    by (auto simp: detect_col_def astype_float_def split: if_splits)
  show "\<not> list_ex is_stamp (column df col)" by (rule ns)
  let ?g = "\<lambda>r. float_cell (z_of (col_vals df col) (float_of (cell_at r col)))"
  have z: "map float_cell (zscore (map float_of (column df col))) = map ?g (rows df)"
    by (simp add: zscore_def col_vals_def column_def)
  let ?d1 = "set_column df (zscore_name col) (map ?g (rows df))"
  have r1: "rows ?d1 = map (\<lambda>r. AList.update (zscore_name col) (?g r) r) (rows df)"
    by (rule rows_set_column)
  have c1: "map abs_gt3 (column ?d1 (zscore_name col))
        = map (\<lambda>r. Flag (flagged (col_vals df col) (float_of (cell_at r col)))) (rows ?d1)"
    unfolding column_def r1 by (simp add: cell_at_update abs_gt3_flagged o_def)
  have d: "d = set_column ?d1 (outlier_name col)
                 (map (\<lambda>r. Flag (flagged (col_vals df col) (float_of (cell_at r col)))) (rows ?d1))"
    using assms unfolding detect_col_def a sum.case Let_def z c1 by simp
  show "columns d = add_col (outlier_name col) (add_col (zscore_name col) (columns df))"
    unfolding d by (simp add: set_column_def add_col_def)
  show "rows d = map (\<lambda>r. AList.update (outlier_name col)
                         (Flag (flagged (col_vals df col) (float_of (cell_at r col))))
                       (AList.update (zscore_name col)
                         (float_cell (z_of (col_vals df col) (float_of (cell_at r col)))) r))
                    (rows df)"
  proof -
    have "rows d = map (\<lambda>r. AList.update (outlier_name col)
                         (Flag (flagged (col_vals df col) (float_of (cell_at r col)))) r) (rows ?d1)"
      unfolding d by (rule rows_set_column)
    then show ?thesis by (simp add: r1 o_def cell_at_update)
  qed
qed

lemma diagnostic_names [simp]: "diagnostic (zscore_name c)" "diagnostic (outlier_name c)"
  by (simp_all add: diagnostic_def zscore_name_def outlier_name_def suffix_def)

lemma outlier_name_inj [simp]: "outlier_name a = outlier_name b \<longleftrightarrow> a = b"
  by (simp add: outlier_name_def)

lemma zscore_name_inj [simp]: "zscore_name a = zscore_name b \<longleftrightarrow> a = b"
  by (simp add: zscore_name_def)

lemma zscore_outlier_neq [simp]: "zscore_name a \<noteq> outlier_name b" "outlier_name b \<noteq> zscore_name a"
proof -
  have "last (zscore_name a) \<noteq> last (outlier_name b)"
    by (simp add: zscore_name_def outlier_name_def)
  then show "zscore_name a \<noteq> outlier_name b" "outlier_name b \<noteq> zscore_name a" by auto
qed

lemma set_add_col [simp]: "set (add_col n cs) = insert n (set cs)"
  by (auto simp: add_col_def)

lemma filter_add_col: "P n \<Longrightarrow> filter (\<lambda>c. \<not> P c) (add_col n cs) = filter (\<lambda>c. \<not> P c) cs"
  by (simp add: add_col_def)

lemma detect_rows:
  assumes "detect keys df = Inr d"
  shows "\<exists>F. rows d = map F (rows df)
           \<and> (\<forall>r x. x \<notin> touched keys \<longrightarrow> cell_at (F r) x = cell_at r x)
           \<and> (\<forall>r k. k \<in> set keys \<and> k \<in> set (columns df) \<and> \<not> diagnostic k \<longrightarrow>
                  cell_at (F r) (outlier_name k)
                    = Flag (flagged (col_vals df k) (float_of (cell_at r k))))"
  using assms
proof (induction keys arbitrary: df)
  case Nil
  then show ?case by (intro exI[of _ id]) simp
next
  case (Cons col cols)
  show ?case
  proof (cases "col \<in> set (columns df)")
    case False
    with Cons.prems have "detect cols df = Inr d" by simp
    from Cons.IH[OF this] obtain F where F: "rows d = map F (rows df)"
      "\<forall>r x. x \<notin> touched cols \<longrightarrow> cell_at (F r) x = cell_at r x"
      "\<forall>r k. k \<in> set cols \<and> k \<in> set (columns df) \<and> \<not> diagnostic k \<longrightarrow>
                  cell_at (F r) (outlier_name k)
                    = Flag (flagged (col_vals df k) (float_of (cell_at r k)))" by blast
    show ?thesis
      using F False by (intro exI[of _ F]) (auto simp: touched_def)
  next
    case True
    with Cons.prems obtain d1 where d1: "detect_col col df = Inr d1" and d: "detect cols d1 = Inr d"
      by (auto split: sum.splits)
    let ?F1 = "\<lambda>r. AList.update (outlier_name col)
                         (Flag (flagged (col_vals df col) (float_of (cell_at r col))))
                       (AList.update (zscore_name col)
                         (float_cell (z_of (col_vals df col) (float_of (cell_at r col)))) r)"
    have r1: "rows d1 = map ?F1 (rows df)" and c1: "set (columns df) \<subseteq> set (columns d1)"
      using detect_col_Inr[OF d1] by auto
    have u1: "cell_at (?F1 r) x = cell_at r x" if "x \<noteq> zscore_name col" "x \<noteq> outlier_name col" for r x
      using that by (simp add: cell_at_update)
    have v1: "col_vals d1 k = col_vals df k" if "\<not> diagnostic k" for k
    proof -
      have "k \<noteq> zscore_name col" "k \<noteq> outlier_name col" using that by auto
      then show ?thesis by (simp add: col_vals_def column_def r1 o_def cell_at_update)
    qed
    from Cons.IH[OF d] obtain F where F: "rows d = map F (rows d1)"
      "\<forall>r x. x \<notin> touched cols \<longrightarrow> cell_at (F r) x = cell_at r x"
      "\<forall>r k. k \<in> set cols \<and> k \<in> set (columns d1) \<and> \<not> diagnostic k \<longrightarrow>
                  cell_at (F r) (outlier_name k)
                    = Flag (flagged (col_vals d1 k) (float_of (cell_at r k)))" by blast
    have "rows d = map (F \<circ> ?F1) (rows df)" by (simp add: F(1) r1)
    moreover have "cell_at ((F \<circ> ?F1) r) x = cell_at r x" if "x \<notin> touched (col # cols)" for r x
    proof -
      from that have "x \<notin> touched cols" "x \<noteq> zscore_name col" "x \<noteq> outlier_name col"
        by (auto simp: touched_def)
      then show ?thesis using F(2) u1 by simp
    qed
    moreover have "cell_at ((F \<circ> ?F1) r) (outlier_name k)
                    = Flag (flagged (col_vals df k) (float_of (cell_at r k)))"
      if k: "k \<in> set (col # cols)" "k \<in> set (columns df)" "\<not> diagnostic k" for r k
    proof (cases "k \<in> set cols")
      case True
      have kn: "k \<noteq> zscore_name col" "k \<noteq> outlier_name col" using k(3) by auto
      have "cell_at (F (?F1 r)) (outlier_name k)
              = Flag (flagged (col_vals d1 k) (float_of (cell_at (?F1 r) k)))"
        using F(3) True k c1 by blast
      then show ?thesis using v1[OF k(3)] u1[OF kn] by simp
    next
      case False
      then have kc: "k = col" using k(1) by simp
      have "outlier_name k \<notin> touched cols" using False by (auto simp: touched_def)
      then have "cell_at (F (?F1 r)) (outlier_name k) = cell_at (?F1 r) (outlier_name k)"
        using F(2) by blast
      then show ?thesis by (simp add: kc cell_at_update)
    qed
    ultimately show ?thesis by (intro exI[of _ "F \<circ> ?F1"]) blast
  qed
qed

lemma detect_columns:
  assumes "detect keys df = Inr d"
  shows "filter (\<lambda>c. \<not> diagnostic c) (columns d) = filter (\<lambda>c. \<not> diagnostic c) (columns df)"
    and "set (columns df) \<subseteq> set (columns d)"
    and "set (columns d) \<subseteq> set (columns df) \<union> touched keys"
    and "length (rows d) = length (rows df)"
  using assms
proof (induction keys arbitrary: df)
  case Nil
  { case 1 then show ?case by simp }
  { case 2 then show ?case by simp }
  { case 3 then show ?case by simp }
  { case 4 then show ?case by simp }
next
  case (Cons col cols)
  { case 1 then show ?case
      using Cons.IH(1) detect_col_Inr(1)
      by (fastforce split: if_splits sum.splits simp: filter_add_col) }
  { case 2 then show ?case
      using Cons.IH(2) detect_col_Inr(1)
      by (fastforce split: if_splits sum.splits) }
  { case 3 then show ?case
      using Cons.IH(3) detect_col_Inr(1)
      by (fastforce split: if_splits sum.splits simp: touched_def) }
  { case 4 then show ?case
      using Cons.IH(4) detect_col_Inr(2)
      by (fastforce split: if_splits sum.splits) }
qed

subsection \<open>Imputation\<close>

lemma impute_columns [simp]: "columns (impute keys df) = columns df"
  by (induction keys arbitrary: df) (auto simp: fillna_def)

lemma column_fillna_other: "x \<noteq> col \<or> v = NaN \<Longrightarrow> column (fillna df col v) x = column df x"
  by (auto simp: column_def fillna_def o_def cell_at_update)

lemma count_na_0: "count_na (column df c) = 0 \<Longrightarrow> r \<in> set (rows df) \<Longrightarrow> cell_at r c \<noteq> NaN"
  by (auto simp: count_na_def column_def filter_empty_conv)

lemma impute_rows:
  "\<exists>G. rows (impute keys df) = map G (rows df)
       \<and> (\<forall>r \<in> set (rows df). \<forall>x. cell_at (G r) x =
              (if x \<in> set keys \<and> x \<in> set (columns df) \<and> cell_at r x = NaN
               then median (column df x) else cell_at r x))"
proof (induction keys arbitrary: df)
  case Nil
  show ?case by (intro exI[of _ id]) simp
next
  case (Cons col cols)
  show ?case
  proof (cases "col \<in> set (columns df) \<and> count_na (column df col) > 0")
    case False
    then have e: "impute (col # cols) df = impute cols df" by auto
    from Cons.IH[of df] obtain G where G: "rows (impute cols df) = map G (rows df)"
      "\<forall>r \<in> set (rows df). \<forall>x. cell_at (G r) x =
              (if x \<in> set cols \<and> x \<in> set (columns df) \<and> cell_at r x = NaN
               then median (column df x) else cell_at r x)" by blast
    have "cell_at (G r) x = (if x \<in> set (col # cols) \<and> x \<in> set (columns df) \<and> cell_at r x = NaN
               then median (column df x) else cell_at r x)" if r: "r \<in> set (rows df)" for r x
    proof (cases "x = col \<and> col \<in> set (columns df)")
      case True
      with False have "count_na (column df col) = 0" by simp
      from count_na_0[OF this r] show ?thesis using G(2) r True by simp
    next
      case False
      then show ?thesis using G(2) r by auto
    qed
    then show ?thesis unfolding e using G(1) by (intro exI[of _ G]) blast
  next
    case True
    let ?m = "median (column df col)"
    let ?d1 = "fillna df col ?m"
    let ?G1 = "\<lambda>r. if cell_at r col = NaN then AList.update col ?m r else r"
    have e: "impute (col # cols) df = impute cols ?d1" using True by simp
    have r1: "rows ?d1 = map ?G1 (rows df)" by (simp add: fillna_def)
    have c1: "columns ?d1 = columns df" by (simp add: fillna_def)
    have g1: "cell_at (?G1 r) x = (if x = col \<and> cell_at r x = NaN then ?m else cell_at r x)" for r x
      by (auto simp: cell_at_update)
    have m1: "median (column ?d1 x) = median (column df x)" if "x \<noteq> col \<or> ?m = NaN" for x
    proof -
      have "column ?d1 x = column df x" using that
        by (intro column_fillna_other) 
      then show ?thesis by simp
    qed
    from Cons.IH[of ?d1] obtain G where G: "rows (impute cols ?d1) = map G (rows ?d1)"
      "\<forall>r \<in> set (rows ?d1). \<forall>x. cell_at (G r) x =
              (if x \<in> set cols \<and> x \<in> set (columns ?d1) \<and> cell_at r x = NaN
               then median (column ?d1 x) else cell_at r x)" by blast
    have "cell_at ((G \<circ> ?G1) r) x = (if x \<in> set (col # cols) \<and> x \<in> set (columns df) \<and> cell_at r x = NaN
               then median (column df x) else cell_at r x)" if r: "r \<in> set (rows df)" for r x
    proof -
      have "?G1 r \<in> set (rows ?d1)" using r r1 by simp
      then have s: "cell_at (G (?G1 r)) x =
              (if x \<in> set cols \<and> x \<in> set (columns df) \<and> cell_at (?G1 r) x = NaN
               then median (column ?d1 x) else cell_at (?G1 r) x)"
        using G(2) c1 by simp
      show ?thesis
      proof (cases "x = col")
        case False
        then show ?thesis using s m1[of x] g1[of r x] by simp
      next
        case xc: True
        show ?thesis
        proof (cases "?m = NaN")
          case True
          then show ?thesis using s m1[of x] g1[of r x] xc \<open>col \<in> set (columns df) \<and> _\<close> by auto
        next
          case False
          then show ?thesis using s g1[of r x] xc \<open>col \<in> set (columns df) \<and> _\<close> by auto
        qed
      qed
    qed
    moreover have "rows (impute (col # cols) df) = map (G \<circ> ?G1) (rows df)"
      unfolding e G(1) r1 by simp
    ultimately show ?thesis by (intro exI[of _ "G \<circ> ?G1"]) blast
  qed
qed

subsection \<open>Row removal and stripping\<close>

lemma drop_flagged_Inr:
  assumes "drop_flagged df name = Inr d"
  shows "columns d = columns df"
    and "rows d = filter (\<lambda>r. cell_at r name = Flag False) (rows df)"
  using assms by (auto simp: drop_flagged_def split: if_splits)

lemma remove_outliers_Inr:
  assumes "remove_outliers keys df = Inr d"
  shows "columns d = columns df \<and>
         rows d = filter (\<lambda>r. \<forall>k \<in> set keys. outlier_name k \<in> set (columns df) \<longrightarrow>
                                 cell_at r (outlier_name k) = Flag False) (rows df)"
  using assms
proof (induction keys arbitrary: df)
  case Nil
  then show ?case by simp
next
  case (Cons col cols)
  show ?case
  proof (cases "outlier_name col \<in> set (columns df)")
    case False
    with Cons.prems have "remove_outliers cols df = Inr d" by simp
    from Cons.IH[OF this] False show ?thesis by (auto intro!: filter_cong)
  next
    case True
    with Cons.prems obtain d1 where d1: "drop_flagged df (outlier_name col) = Inr d1"
      and d: "remove_outliers cols d1 = Inr d" by (auto split: sum.splits)
    from Cons.IH[OF d] drop_flagged_Inr[OF d1] True show ?thesis
      by (auto intro!: filter_cong)
  qed
qed

lemma dropna_Inr:
  assumes "dropna df keys = Inr d"
  shows "columns d = columns df"
    and "rows d = filter (\<lambda>r. \<forall>c \<in> set keys. cell_at r c \<noteq> NaN) (rows df)"
    and "set keys \<subseteq> set (columns df)"
  using assms by (auto simp: dropna_def Let_def filter_empty_conv split: if_splits)

lemma columns_drop_diagnostic:
  "columns (drop_diagnostic df) = filter (\<lambda>c. \<not> diagnostic c) (columns df)"
  by (auto simp: drop_diagnostic_def Let_def intro!: filter_cong)

lemma rows_drop_diagnostic:
  "rows (drop_diagnostic df)
     = map (filter (\<lambda>(c, v). c \<notin> {c \<in> set (columns df). diagnostic c})) (rows df)"
  by (simp add: drop_diagnostic_def Let_def)

subsection \<open>The pipeline, step by step\<close>

lemma clean_Inr:
  assumes "clean df keys = Inr (out, mr, oc)"
  obtains d1 d2 d3 where "detect keys df = Inr d1" "outlier_counts d1 keys = Inr oc"
    "dropna (impute keys d1) keys = Inr d2" "remove_outliers keys d2 = Inr d3"
    "out = drop_diagnostic d3" "mr = missing_report df"
  using assms by (auto simp: clean_def split: sum.splits)

lemma clean_columns:
  assumes "clean df keys = Inr (out, mr, oc)"
  shows "columns out = filter (\<lambda>c. \<not> diagnostic c) (columns df)"
proof -
  from assms obtain d1 d2 d3 where d: "detect keys df = Inr d1"
    "dropna (impute keys d1) keys = Inr d2" "remove_outliers keys d2 = Inr d3"
    "out = drop_diagnostic d3" by (rule clean_Inr)
  have "columns d3 = columns d1"
    using remove_outliers_Inr[OF d(3)] dropna_Inr(1)[OF d(2)] by simp
  then show ?thesis
    using detect_columns(1)[OF d(1)] by (simp add: d(4) columns_drop_diagnostic)
qed

lemma clean_rows_subset:
  assumes "clean df keys = Inr (out, mr, oc)" and "r \<in> set (rows out)"
  obtains d1 r1 where "detect keys df = Inr d1" "set keys \<subseteq> set (columns d1)"
    "r1 \<in> set (rows (impute keys d1))"
    "\<forall>c \<in> set keys. cell_at r1 c \<noteq> NaN"
    "\<forall>k \<in> set keys. outlier_name k \<in> set (columns d1) \<longrightarrow> cell_at r1 (outlier_name k) = Flag False"
    "r = filter (\<lambda>(c, v). c \<notin> {c \<in> set (columns d1). diagnostic c}) r1"
proof -
  from assms(1) obtain d1 d2 d3 where d: "detect keys df = Inr d1"
    "dropna (impute keys d1) keys = Inr d2" "remove_outliers keys d2 = Inr d3"
    "out = drop_diagnostic d3" by (rule clean_Inr)
  note dn = dropna_Inr[OF d(2)]
  note ro = remove_outliers_Inr[OF d(3)]
  have c3: "columns d3 = columns d1" using ro dn(1) by simp
  from assms(2) obtain r1 where r1: "r1 \<in> set (rows d3)"
    and r: "r = filter (\<lambda>(c, v). c \<notin> {c \<in> set (columns d1). diagnostic c}) r1"
    by (auto simp: d(4) rows_drop_diagnostic c3)
  have "r1 \<in> set (rows (impute keys d1))" "\<forall>c \<in> set keys. cell_at r1 c \<noteq> NaN"
    "\<forall>k \<in> set keys. outlier_name k \<in> set (columns d1) \<longrightarrow> cell_at r1 (outlier_name k) = Flag False"
    using r1 ro dn by auto
  with that d(1) dn(3) r show ?thesis by simp
qed

subsection \<open>Flags without square roots\<close>

lemma var_nonneg: "0 \<le> var xs"
  by (auto simp: var_def intro!: divide_nonneg_nonneg sum_list_nonneg)

lemma flagged_None [simp]: "flagged xs None = False"
  by (simp add: flagged_def)

lemma flagged_Some: "flagged xs (Some x) \<longleftrightarrow> var xs \<noteq> 0 \<and> 9 * var xs < (x - mean xs)\<^sup>2"
proof (cases "var xs = 0")
  case True
  then show ?thesis by (simp add: flagged_def std_def)
next
  case False
  with var_nonneg[of xs] have p: "0 < std xs" by (simp add: std_def)
  have "\<bar>(x - mean xs) / std xs\<bar> > 3 \<longleftrightarrow> 3 * std xs < \<bar>x - mean xs\<bar>"
    using p by (simp add: pos_less_divide_eq)
  also have "\<dots> \<longleftrightarrow> (3 * std xs)\<^sup>2 < (x - mean xs)\<^sup>2"
    using p abs_le_square_iff[of "x - mean xs" "3 * std xs"] by (simp add: not_le[symmetric])
  also have "(3 * std xs)\<^sup>2 = 9 * var xs"
    using var_nonneg[of xs] by (simp add: std_def power_mult_distrib)
  finally show ?thesis using False p by (simp add: flagged_def)
qed

subsection \<open>Completion\<close>

lemma all_flag_iff: "all_flag df x \<longleftrightarrow> (\<forall>r \<in> set (rows df). is_flag (cell_at r x))"
  by (simp add: all_flag_def column_def list_all_iff)

lemma no_stamp_iff: "no_stamp df x \<longleftrightarrow> (\<forall>r \<in> set (rows df). \<not> is_stamp (cell_at r x))"
  by (simp add: no_stamp_def column_def list_ex_iff)

lemma not_stamp_float_cell [simp]: "\<not> is_stamp (float_cell z)"
  by (cases z) auto

lemma flag_not_stamp: "is_flag c \<Longrightarrow> \<not> is_stamp c"
  by (cases c) auto

lemma dropna_succeeds: "set keys \<subseteq> set (columns df) \<Longrightarrow> \<exists>d. dropna df keys = Inr d"
  by (auto simp: dropna_def Let_def filter_empty_conv)

lemma detect_col_succeeds:
  assumes "no_stamp df col"
  shows "\<exists>d. detect_col col df = Inr d"
  using assms by (simp add: detect_col_def astype_float_def no_stamp_def Let_def)

lemma detect_col_no_stamp:
  assumes "detect_col col df = Inr d" and "no_stamp df x"
  shows "no_stamp d x"
  using assms(2) unfolding no_stamp_iff detect_col_Inr(2)[OF assms(1)]
  by (auto simp: cell_at_update)

lemma detect_col_all_flag:
  assumes "detect_col col df = Inr d"
  shows "all_flag d (outlier_name col)"
    and "all_flag df (outlier_name k) \<Longrightarrow> all_flag d (outlier_name k)"
  unfolding all_flag_iff detect_col_Inr(2)[OF assms(1)]
  by (auto simp: cell_at_update)

lemma detect_succeeds:
  assumes "set keys \<subseteq> set (columns df)" and "\<forall>k \<in> set keys. no_stamp df k"
  shows "\<exists>d. detect keys df = Inr d"
  using assms
proof (induction keys arbitrary: df)
  case Nil
  then show ?case by simp
next
  case (Cons col cols)
  then have "no_stamp df col" by simp
  from detect_col_succeeds[OF this] obtain d1 where d1: "detect_col col df = Inr d1" ..
  have "set cols \<subseteq> set (columns d1)"
    using Cons.prems(1) detect_col_Inr(1)[OF d1] by auto
  moreover have "\<forall>k \<in> set cols. no_stamp d1 k"
    using Cons.prems(2) detect_col_no_stamp[OF d1] by simp
  ultimately obtain d where "detect cols d1 = Inr d" using Cons.IH by blast
  then show ?case using Cons.prems(1) d1 by simp
qed

lemma detect_all_flag:
  assumes "detect keys df = Inr d"
  shows "all_flag df (outlier_name k) \<Longrightarrow> all_flag d (outlier_name k)"
    and "k \<in> set keys \<Longrightarrow> k \<in> set (columns df) \<Longrightarrow> all_flag d (outlier_name k)"
  using assms
proof (induction keys arbitrary: df)
  case Nil
  { case 1 then show ?case by simp }
  { case 2 then show ?case by simp }
next
  case (Cons col cols)
  { case 1
    then show ?case
      using Cons.IH(1) detect_col_all_flag(2) by (fastforce split: if_splits sum.splits) }
  { case 2
    show ?case
    proof (cases "col \<in> set (columns df)")
      case False
      with 2 have "detect cols df = Inr d" "k \<in> set cols" by auto
      then show ?thesis using Cons.IH(2) 2 by blast
    next
      case True
      with 2 obtain d1 where d1: "detect_col col df = Inr d1" and d: "detect cols d1 = Inr d"
        by (auto split: sum.splits)
      have c1: "k \<in> set (columns d1)" using 2 detect_col_Inr(1)[OF d1] by simp
      show ?thesis
      proof (cases "k = col")
        case True
        then show ?thesis using Cons.IH(1)[OF _ d] detect_col_all_flag(1)[OF d1] by simp
      next
        case False
        then show ?thesis using Cons.IH(2)[OF _ c1 d] 2 by simp
      qed
    qed }
qed

lemma impute_all_flag:
  assumes "all_flag df x"
  shows "all_flag (impute keys df) x"
proof -
  obtain G where G: "rows (impute keys df) = map G (rows df)"
       "\<forall>r \<in> set (rows df). \<forall>x. cell_at (G r) x =
              (if x \<in> set keys \<and> x \<in> set (columns df) \<and> cell_at r x = NaN
               then median (column df x) else cell_at r x)"
    using impute_rows by blast
  have "is_flag (cell_at (G r) x)" if "r \<in> set (rows df)" for r
  proof -
    have "is_flag (cell_at r x)" using assms that by (simp add: all_flag_iff)
    moreover from this have "cell_at r x \<noteq> NaN" by auto
    ultimately show ?thesis using G(2) that by simp
  qed
  then show ?thesis by (simp add: all_flag_iff G(1))
qed

lemma remove_outliers_succeeds:
  assumes "\<forall>k \<in> set keys. outlier_name k \<in> set (columns df) \<longrightarrow> all_flag df (outlier_name k)"
  shows "\<exists>d. remove_outliers keys df = Inr d"
  using assms
proof (induction keys arbitrary: df)
  case Nil
  then show ?case by simp
next
  case (Cons col cols)
  show ?case
  proof (cases "outlier_name col \<in> set (columns df)")
    case False
    then show ?thesis using Cons by simp
  next
    case True
    with Cons.prems have "all_flag df (outlier_name col)" by simp
    then obtain d1 where d1: "drop_flagged df (outlier_name col) = Inr d1"
      by (simp add: drop_flagged_def all_flag_def)
    have "\<forall>k \<in> set cols. outlier_name k \<in> set (columns d1) \<longrightarrow> all_flag d1 (outlier_name k)"
      using Cons.prems drop_flagged_Inr[OF d1] by (auto simp: all_flag_iff)
    from Cons.IH[OF this] show ?thesis using True d1 by simp
  qed
qed

lemma outlier_counts_succeeds:
  assumes "\<forall>k \<in> set keys. outlier_name k \<in> set (columns df) \<longrightarrow> all_flag df (outlier_name k)"
  shows "\<exists>oc. outlier_counts df keys = Inr oc"
proof -
  have "\<not> list_ex is_stamp (column df (outlier_name k))"
    if "k \<in> set keys" "outlier_name k \<in> set (columns df)" for k
  proof -
    from assms that have "list_all is_flag (column df (outlier_name k))" by (simp add: all_flag_def)
    then show ?thesis by (auto simp: list_all_iff list_ex_iff dest: flag_not_stamp)
  qed
  then show ?thesis by (auto simp: outlier_counts_def list_ex_iff)
qed

lemma clean_succeeds:
  assumes "set keys \<subseteq> set (columns df)" and "\<forall>k \<in> set keys. no_stamp df k"
  shows "\<exists>out mr oc. clean df keys = Inr (out, mr, oc)"
proof -
  from detect_succeeds[OF assms] obtain d1 where d1: "detect keys df = Inr d1" ..
  have f1: "all_flag d1 (outlier_name k)" if "k \<in> set keys" for k
    using detect_all_flag(2)[OF d1 that] assms(1) that by auto
  then obtain oc where oc: "outlier_counts d1 keys = Inr oc"
    using outlier_counts_succeeds[of keys d1] by blast
  have "set keys \<subseteq> set (columns (impute keys d1))"
    using assms(1) detect_columns(2)[OF d1] by auto
  then obtain d2 where d2: "dropna (impute keys d1) keys = Inr d2"
    using dropna_succeeds by blast
  have "all_flag d2 (outlier_name k)" if "k \<in> set keys" for k
    using impute_all_flag[OF f1[OF that], of keys] dropna_Inr(2)[OF d2]
    by (auto simp: all_flag_iff)
  then obtain d3 where d3: "remove_outliers keys d2 = Inr d3"
    using remove_outliers_succeeds[of keys d2] by blast
  show ?thesis by (simp add: clean_def d1 oc d2 d3)
qed

lemma cleaned_Some: "cleaned df keys = Some out \<longleftrightarrow> (\<exists>mr oc. clean df keys = Inr (out, mr, oc))"
  by (auto simp: cleaned_def split: sum.splits)

subsection \<open>Well-formed frames\<close>

lemma keys_update: "map fst (AList.update k v r) = add_col k (map fst r)"
  by (simp add: update_keys add_col_def)

lemma keys_filter: "map fst (filter (\<lambda>(c, v). P c) r) = filter P (map fst r)"
  by (induction r) auto

lemma wf_detect_col:
  assumes "detect_col col df = Inr d" and "wf df"
  shows "wf d"
  using assms(2) unfolding wf_def detect_col_Inr(1,2)[OF assms(1)]
  by (auto simp: keys_update)

lemma wf_detect: "detect keys df = Inr d \<Longrightarrow> wf df \<Longrightarrow> wf d"
proof (induction keys arbitrary: df)
  case Nil
  then show ?case by simp
next
  case (Cons col cols)
  then show ?case using wf_detect_col by (fastforce split: if_splits sum.splits)
qed

lemma wf_fillna: "wf df \<Longrightarrow> col \<in> set (columns df) \<Longrightarrow> wf (fillna df col v)"
  by (auto simp: wf_def fillna_def keys_update add_col_def)

lemma wf_impute: "wf df \<Longrightarrow> wf (impute keys df)"
  by (induction keys arbitrary: df) (auto simp: wf_fillna)

lemma wf_filter: "wf df \<Longrightarrow> columns d = columns df \<Longrightarrow> rows d = filter P (rows df) \<Longrightarrow> wf d"
  by (auto simp: wf_def)

lemma wf_drop_diagnostic: "wf df \<Longrightarrow> wf (drop_diagnostic df)"
  unfolding wf_def drop_diagnostic_def Let_def by (simp add: keys_filter)

lemma wf_clean:
  assumes "clean df keys = Inr (out, mr, oc)" and "wf df"
  shows "wf out"
proof -
  from assms(1) obtain d1 d2 d3 where d: "detect keys df = Inr d1"
    "dropna (impute keys d1) keys = Inr d2" "remove_outliers keys d2 = Inr d3"
    "out = drop_diagnostic d3" by (rule clean_Inr)
  have "wf (impute keys d1)" using wf_detect[OF d(1) assms(2)] by (rule wf_impute)
  then have "wf d2" using dropna_Inr(1,2)[OF d(2)] by (rule wf_filter)
  then have "wf d3" using remove_outliers_Inr[OF d(3)] by (auto elim: wf_filter)
  then show ?thesis unfolding d(4) by (rule wf_drop_diagnostic)
qed

subsection \<open>Absent columns\<close>

lemma detect_skip:
  assumes "c \<notin> set (columns df)" and "c \<notin> touched keys"
  shows "detect keys df = detect (removeAll c keys) df"
  using assms
proof (induction keys arbitrary: df)
  case Nil
  then show ?case by simp
next
  case (Cons col cols)
  have t: "c \<notin> touched cols" "c \<noteq> zscore_name col" "c \<noteq> outlier_name col"
    using Cons.prems(2) by (auto simp: touched_def)
  show ?case
  proof (cases "col \<in> set (columns df)")
    case False
    then show ?thesis using Cons.IH[OF Cons.prems(1) t(1)] Cons.prems(1) by auto
  next
    case True
    then have ne: "col \<noteq> c" using Cons.prems(1) by auto
    show ?thesis
    proof (cases "detect_col col df")
      case (Inl e)
      then show ?thesis using True ne by simp
    next
      case (Inr d1)
      have "c \<notin> set (columns d1)" using detect_col_Inr(1)[OF Inr] Cons.prems(1) t by simp
      from Cons.IH[OF this t(1)] show ?thesis using True ne Inr by simp
    qed
  qed
qed

lemma impute_skip:
  assumes "c \<notin> set (columns df)"
  shows "impute keys df = impute (removeAll c keys) df"
  using assms
proof (induction keys arbitrary: df)
  case Nil
  then show ?case by simp
next
  case (Cons col cols)
  have "c \<notin> set (columns (fillna df col v))" for v using Cons.prems by (simp add: fillna_def)
  then show ?case using Cons by auto
qed

lemma missing_report_columns: "fst ` set (missing_report df) \<subseteq> set (columns df)"
  by (auto simp: missing_report_def)

subsection \<open>The median lies near the mean\<close>

text \<open>
  In exact arithmetic the median of a list is within \<open>sqrt 2\<close> standard deviations of its
  mean, so the median of a column is not flagged against that column. This is a fact of
  the real numbers: the float64 statistics of the source round, and overflow or underflow
  at extreme magnitudes, so it is not a statement on the z-scores that the source would
  print for the cleaned values.
\<close>

lemma sum_list_ge_const:
  fixes f :: "real \<Rightarrow> real"
  assumes "\<forall>x \<in> set xs. c \<le> f x"
  shows "real (length xs) * c \<le> sum_list (map f xs)"
  using assms by (induction xs) (auto simp: algebra_simps)

lemma half_bound:
  fixes a c S n :: real
  assumes "a * c \<le> S" and "n \<le> 2 * a" and "0 \<le> c"
  shows "n * c \<le> 2 * S"
proof -
  have "n * c \<le> (2 * a) * c" using assms(2,3) by (rule mult_right_mono)
  also have "\<dots> = 2 * (a * c)" by simp
  also have "\<dots> \<le> 2 * S" using assms(1) by simp
  finally show ?thesis .
qed

lemma sum_list_map_sort:
  fixes f :: "real \<Rightarrow> real"
  shows "sum_list (map f (sort xs)) = sum_list (map f xs)"
proof -
  have "sum_list (map f (sort xs)) = sum_mset (image_mset f (mset (sort xs)))"
    by (simp add: sum_mset_sum_list[symmetric])
  also have "\<dots> = sum_list (map f xs)"
    by (simp add: sum_mset_sum_list[symmetric])
  finally show ?thesis .
qed

lemma median_upper:
  assumes "xs \<noteq> []" and "x \<in> set (drop (length xs div 2) (sort xs))"
  shows "median_val xs \<le> x"
proof -
  let ?s = "sort xs" and ?n = "length xs"
  have n: "0 < ?n" using assms(1) by simp
  from assms(2) obtain i where i: "i < ?n - ?n div 2" and x: "x = ?s ! (?n div 2 + i)"
    by (auto simp: in_set_conv_nth)
  have "?n div 2 + i < length ?s" using i by simp
  then have a: "?s ! (?n div 2) \<le> x"
    unfolding x by (intro sorted_nth_mono) auto
  have "?n div 2 < length ?s" using n by simp
  then have b: "?s ! (?n div 2 - 1) \<le> ?s ! (?n div 2)"
    by (intro sorted_nth_mono) auto
  show ?thesis using a b by (auto simp: median_val_def Let_def)
qed

lemma median_lower:
  assumes "xs \<noteq> []" and "x \<in> set (take ((length xs + 1) div 2) (sort xs))"
  shows "x \<le> median_val xs"
proof -
  let ?s = "sort xs" and ?n = "length xs"
  have n: "0 < ?n" using assms(1) by simp
  from assms(2) obtain i where i: "i < (?n + 1) div 2" and x: "x = ?s ! i"
    by (auto simp: in_set_conv_nth)
  show ?thesis
  proof (cases "even ?n")
    case True
    then have "i \<le> ?n div 2 - 1" using i n by (auto elim!: evenE)
    moreover have "?n div 2 - 1 < length ?s" using n by (simp add: less_imp_diff_less)
    ultimately have a: "x \<le> ?s ! (?n div 2 - 1)"
      unfolding x by (intro sorted_nth_mono) auto
    have "?n div 2 < length ?s" using n by simp
    then have b: "?s ! (?n div 2 - 1) \<le> ?s ! (?n div 2)"
      by (intro sorted_nth_mono) auto
    show ?thesis using a b True by (auto simp: median_val_def Let_def)
  next
    case False
    then have "i \<le> ?n div 2" using i by (auto elim!: oddE)
    moreover have "?n div 2 < length ?s" using n by simp
    ultimately have a: "x \<le> ?s ! (?n div 2)"
      unfolding x by (intro sorted_nth_mono) auto
    show ?thesis using a False by (auto simp: median_val_def Let_def)
  qed
qed

lemma median_near_mean:
  assumes "xs \<noteq> []"
  shows "(median_val xs - mean xs)\<^sup>2 \<le> 2 * var xs"
proof -
  let ?s = "sort xs" and ?n = "length xs" and ?m = "median_val xs" and ?mu = "mean xs"
  let ?f = "\<lambda>x. (x - ?mu)\<^sup>2"
  have n: "0 < ?n" using assms by simp
  have nonneg: "0 \<le> sum_list (map ?f ys)" for ys by (auto intro!: sum_list_nonneg)
  have split: "sum_list (map ?f xs) = sum_list (map ?f (take k ?s)) + sum_list (map ?f (drop k ?s))" for k
  proof -
    have "sum_list (map ?f xs) = sum_list (map ?f (take k ?s @ drop k ?s))"
      by (simp add: sum_list_map_sort)
    then show ?thesis by (simp del: append_take_drop_id)
  qed
  have half: "real ?n * (?m - ?mu)\<^sup>2 \<le> 2 * sum_list (map ?f xs)"
  proof (cases "?mu \<le> ?m")
    case True
    let ?k = "?n div 2"
    have "\<forall>x \<in> set (drop ?k ?s). (?m - ?mu)\<^sup>2 \<le> ?f x"
    proof
      fix x assume "x \<in> set (drop ?k ?s)"
      then have "?m \<le> x" using median_upper[OF assms] by blast
      then show "(?m - ?mu)\<^sup>2 \<le> (x - ?mu)\<^sup>2" using True by (intro power_mono) auto
    qed
    from sum_list_ge_const[OF this]
    have A: "real (?n - ?k) * (?m - ?mu)\<^sup>2 \<le> sum_list (map ?f (drop ?k ?s))" by simp
    have "real ?n \<le> 2 * real (?n - ?k)" by linarith
    with A have "real ?n * (?m - ?mu)\<^sup>2 \<le> 2 * sum_list (map ?f (drop ?k ?s))"
      by (rule half_bound) simp
    then show ?thesis using split[of ?k] nonneg[of "take ?k ?s"] by linarith
  next
    case False
    let ?k = "(?n + 1) div 2"
    have "\<forall>x \<in> set (take ?k ?s). (?m - ?mu)\<^sup>2 \<le> ?f x"
    proof
      fix x assume "x \<in> set (take ?k ?s)"
      then have "x \<le> ?m" using median_lower[OF assms] by blast
      then have "(?mu - ?m)\<^sup>2 \<le> (?mu - x)\<^sup>2" using False by (intro power_mono) auto
      then show "(?m - ?mu)\<^sup>2 \<le> (x - ?mu)\<^sup>2" by (simp add: power2_commute)
    qed
    from sum_list_ge_const[OF this]
    have A: "real (min ?n ?k) * (?m - ?mu)\<^sup>2 \<le> sum_list (map ?f (take ?k ?s))" by simp
    have "real ?n \<le> 2 * real (min ?n ?k)" using n by linarith
    with A have "real ?n * (?m - ?mu)\<^sup>2 \<le> 2 * sum_list (map ?f (take ?k ?s))"
      by (rule half_bound) simp
    then show ?thesis using split[of ?k] nonneg[of "drop ?k ?s"] by linarith
  qed
  have "(?m - ?mu)\<^sup>2 \<le> 2 * (sum_list (map ?f xs) / real ?n)"
    using half n by (simp add: field_simps)
  then show ?thesis by (simp add: var_def)
qed

lemma median_not_flagged:
  assumes "xs \<noteq> []"
  shows "\<not> flagged xs (Some (median_val xs))"
  using median_near_mean[OF assms] var_nonneg[of xs] by (auto simp: flagged_Some)

subsection \<open>The rows of the cleaned data set\<close>

lemma map_of_keep: "map_of (filter (\<lambda>(c, v). P c) r) x = (if P x then map_of r x else None)"
  by (induction r) auto

lemma cell_at_keep: "cell_at (filter (\<lambda>(c, v). P c) r) x = (if P x then cell_at r x else NaN)"
  by (simp add: cell_at_def map_of_keep)

lemma not_diagnostic_untouched: "\<not> diagnostic c \<Longrightarrow> c \<notin> touched keys"
  by (auto simp: touched_def)

lemma detect_outlier_column:
  assumes "detect keys df = Inr d" and "k \<in> set keys" and "k \<in> set (columns df)"
  shows "outlier_name k \<in> set (columns d)"
  using assms
proof (induction keys arbitrary: df)
  case Nil
  then show ?case by simp
next
  case (Cons col cols)
  show ?case
  proof (cases "col \<in> set (columns df)")
    case False
    then show ?thesis using Cons by auto
  next
    case True
    with Cons.prems obtain d1 where d1: "detect_col col df = Inr d1" and d: "detect cols d1 = Inr d"
      by (auto split: sum.splits)
    have c1: "set (columns d1) = insert (outlier_name col) (insert (zscore_name col) (set (columns df)))"
      using detect_col_Inr(1)[OF d1] by simp
    show ?thesis
    proof (cases "k \<in> set cols")
      case True
      then show ?thesis using Cons.IH[OF d True] c1 Cons.prems(3) by simp
    next
      case False
      then have "k = col" using Cons.prems(2) by simp
      then show ?thesis using detect_columns(2)[OF d] c1 by auto
    qed
  qed
qed

lemma clean_rows_char:
  assumes "clean df keys = Inr (out, mr, oc)"
  obtains H K where
    "rows out = map H (filter K (rows df))"
    "\<And>r c. r \<in> set (rows df) \<Longrightarrow> c \<in> set (columns out) \<Longrightarrow> cell_at (H r) c = spec_impute df keys r c"
    "\<And>r c. c \<in> set keys \<Longrightarrow> c \<notin> set (columns out) \<Longrightarrow> cell_at (H r) c = NaN"
    "\<And>r k. r \<in> set (rows df) \<Longrightarrow> k \<in> set keys \<Longrightarrow> \<not> diagnostic k \<Longrightarrow>
        (K r \<longrightarrow> spec_impute df keys r k \<noteq> NaN \<and> \<not> spec_flag df k r)"
    "\<And>r. r \<in> set (rows df) \<Longrightarrow> \<forall>k \<in> set keys. \<not> diagnostic k \<Longrightarrow> K r = spec_keep df keys r"
    "set keys \<subseteq> set (columns df) \<union> touched keys"
proof -
  from assms obtain d1 d2 d3 where d: "detect keys df = Inr d1"
    "dropna (impute keys d1) keys = Inr d2" "remove_outliers keys d2 = Inr d3"
    "out = drop_diagnostic d3" by (rule clean_Inr)
  note dn = dropna_Inr[OF d(2)]
  note ro = remove_outliers_Inr[OF d(3)]
  note co = clean_columns[OF assms]
  have c3: "columns d3 = columns d1" and c2: "columns d2 = columns d1" using ro dn(1) by simp_all
  have kc: "set keys \<subseteq> set (columns d1)" using dn(3) by simp
  obtain F where F: "rows d1 = map F (rows df)"
    "\<And>r x. x \<notin> touched keys \<Longrightarrow> cell_at (F r) x = cell_at r x"
    "\<And>r k. k \<in> set keys \<Longrightarrow> k \<in> set (columns df) \<Longrightarrow> \<not> diagnostic k \<Longrightarrow>
        cell_at (F r) (outlier_name k) = Flag (flagged (col_vals df k) (float_of (cell_at r k)))"
    using detect_rows[OF d(1)] by blast
  obtain G where G: "rows (impute keys d1) = map G (rows d1)"
    "\<And>r x. r \<in> set (rows d1) \<Longrightarrow> cell_at (G r) x =
         (if x \<in> set keys \<and> x \<in> set (columns d1) \<and> cell_at r x = NaN
          then median (column d1 x) else cell_at r x)"
    using impute_rows[of keys d1] by blast
  let ?D = "{c \<in> set (columns d1). diagnostic c}"
  let ?S = "filter (\<lambda>(c, v). c \<notin> ?D)"
  let ?P = "\<lambda>r. (\<forall>c \<in> set keys. cell_at r c \<noteq> NaN) \<and>
                 (\<forall>k \<in> set keys. outlier_name k \<in> set (columns d1) \<longrightarrow>
                      cell_at r (outlier_name k) = Flag False)"
  let ?H = "?S \<circ> G \<circ> F" and ?K = "?P \<circ> G \<circ> F"
  have "rows d3 = filter ?P (map (G \<circ> F) (rows df))"
    using ro dn(2) by (simp add: c2 G(1) F(1))
  then have r: "rows out = map ?H (filter ?K (rows df))"
    by (simp add: d(4) rows_drop_diagnostic c3 filter_map o_def)
  have col: "column d1 c = column df c" if "c \<notin> touched keys" for c
    using F(2)[OF that] by (simp add: column_def F(1))
  have gf: "cell_at (G (F r)) c = spec_impute df keys r c"
    if "r \<in> set (rows df)" "\<not> diagnostic c" "c \<in> set keys \<longrightarrow> c \<in> set (columns d1)" for r c
  proof -
    have t: "c \<notin> touched keys" using that(2) by (rule not_diagnostic_untouched)
    have "F r \<in> set (rows d1)" using that(1) by (simp add: F(1))
    from G(2)[OF this, of c] show ?thesis
      using that(3) by (simp add: spec_impute_def F(2)[OF t] col[OF t])
  qed
  have a: "cell_at (?H r) c = spec_impute df keys r c"
    if "r \<in> set (rows df)" "c \<in> set (columns out)" for r c
  proof -
    from that(2) have nd: "\<not> diagnostic c" and "c \<in> set (columns df)" by (auto simp: co)
    then have "c \<in> set (columns d1)" using detect_columns(2)[OF d(1)] by auto
    then show ?thesis using gf[OF that(1) nd] nd by (simp add: cell_at_keep)
  qed
  have f: "cell_at (?H r) c = NaN" if "c \<in> set keys" "c \<notin> set (columns out)" for r c
  proof -
    have "c \<in> set (columns d1)" using that(1) kc by auto
    moreover from this have "diagnostic c"
      using that(2) by (simp add: d(4) columns_drop_diagnostic c3)
    ultimately show ?thesis by (simp add: cell_at_keep)
  qed
  have fl: "cell_at (G (F r)) (outlier_name k) = Flag (spec_flag df k r)"
    and oc: "outlier_name k \<in> set (columns d1)"
    and im: "cell_at (G (F r)) k = spec_impute df keys r k"
    if "r \<in> set (rows df)" "k \<in> set keys" "\<not> diagnostic k" for r k
  proof -
    have "k \<in> set (columns d1)" using that(2) kc by auto
    then have kd: "k \<in> set (columns df)"
      using detect_columns(3)[OF d(1)] not_diagnostic_untouched[OF that(3), of keys] by auto
    show "outlier_name k \<in> set (columns d1)" by (rule detect_outlier_column[OF d(1) that(2) kd])
    have "F r \<in> set (rows d1)" using that(1) by (simp add: F(1))
    from G(2)[OF this, of "outlier_name k"] F(3)[OF that(2) kd that(3), of r]
    show "cell_at (G (F r)) (outlier_name k) = Flag (spec_flag df k r)"
      by (simp add: spec_flag_def)
    show "cell_at (G (F r)) k = spec_impute df keys r k"
      using gf[OF that(1,3)] \<open>k \<in> set (columns d1)\<close> by simp
  qed
  have c: "?K r \<longrightarrow> spec_impute df keys r k \<noteq> NaN \<and> \<not> spec_flag df k r"
    if "r \<in> set (rows df)" "k \<in> set keys" "\<not> diagnostic k" for r k
    using fl[OF that] oc[OF that] im[OF that] that(2) by auto
  have e: "?K r = spec_keep df keys r"
    if "r \<in> set (rows df)" "\<forall>k \<in> set keys. \<not> diagnostic k" for r
    using fl[OF that(1)] oc[OF that(1)] im[OF that(1)] that(2)
    by (auto simp: spec_keep_def)
  have g: "set keys \<subseteq> set (columns df) \<union> touched keys"
    using kc detect_columns(3)[OF d(1)] by auto
  show thesis using that[of ?H ?K] r a f c e g by blast
qed

lemma drop_diagnostic_id:
  assumes "\<forall>c \<in> set (columns df). \<not> diagnostic c"
  shows "drop_diagnostic df = df"
proof -
  have "filter diagnostic (columns df) = []" using assms by (simp add: filter_empty_conv)
  moreover have "map (filter (\<lambda>(c, v). True)) (rows df) = rows df"
    by (rule map_idI) simp
  ultimately show ?thesis by (simp add: drop_diagnostic_def)
qed

lemma cleaned_no_keys: "cleaned df [] = Some (drop_diagnostic df)"
  by (simp add: cleaned_def clean_def outlier_counts_def dropna_def)

lemma cleaned_no_rows:
  assumes "clean df keys = Inr (out, mr, oc)" and "rows df = []"
  shows "out = \<lparr>columns = filter (\<lambda>c. \<not> diagnostic c) (columns df), rows = []\<rparr>"
proof -
  obtain H K where "rows out = map H (filter K (rows df))"
    by (rule clean_rows_char[OF assms(1)]) blast
  then have "rows out = []" using assms(2) by simp
  then show ?thesis using clean_columns[OF assms(1)] by (simp add: dataframe.equality)
qed

subsection \<open>Facts for a second run\<close>

lemma detect_key_no_stamp:
  assumes "detect keys df = Inr d" and "k \<in> set keys" and "k \<in> set (columns df)"
    and "\<not> diagnostic k"
  shows "no_stamp df k"
  using assms(1-3)
proof (induction keys arbitrary: df)
  case Nil
  then show ?case by simp
next
  case (Cons col cols)
  show ?case
  proof (cases "col \<in> set (columns df)")
    case False
    then show ?thesis using Cons by auto
  next
    case True
    with Cons.prems obtain d1 where d1: "detect_col col df = Inr d1" and d: "detect cols d1 = Inr d"
      by (auto split: sum.splits)
    show ?thesis
    proof (cases "k = col")
      case True
      then show ?thesis using detect_col_Inr(3)[OF d1] by (simp add: no_stamp_def)
    next
      case False
      then have "k \<in> set cols" using Cons.prems(2) by simp
      moreover have "k \<in> set (columns d1)" using detect_col_Inr(1)[OF d1] Cons.prems(3) by simp
      ultimately have "no_stamp d1 k" using Cons.IH[OF d] by blast
      moreover have "k \<noteq> zscore_name col" "k \<noteq> outlier_name col" using assms(4) by auto
      ultimately show ?thesis
        unfolding no_stamp_iff detect_col_Inr(2)[OF d1] by (simp add: cell_at_update)
    qed
  qed
qed

lemma cell_at_Cons: "cell_at ((c, v) # r) x = (if x = c then v else cell_at r x)"
  by (simp add: cell_at_def)

lemma row_eqI:
  assumes "map fst r = map fst r'" and "distinct (map fst r)"
    and "\<forall>c \<in> set (map fst r). cell_at r c = cell_at r' c"
  shows "r = r'"
  using assms
proof (induction r arbitrary: r')
  case Nil
  then show ?case by simp
next
  case (Cons p r)
  then obtain p' r'' where r': "r' = p' # r''" by (cases r') auto
  obtain c v where p: "p = (c, v)" by (cases p)
  obtain c' v' where p': "p' = (c', v')" by (cases p')
  from Cons.prems(1) have cc: "c' = c" and ks: "map fst r = map fst r''" by (simp_all add: r' p p')
  from Cons.prems(3) have "v = v'" by (simp add: r' p p' cc cell_at_Cons)
  moreover have "r = r''"
  proof (rule Cons.IH[OF ks])
    show "distinct (map fst r)" using Cons.prems(2) by simp
    show "\<forall>x \<in> set (map fst r). cell_at r x = cell_at r'' x"
    proof
      fix x assume x: "x \<in> set (map fst r)"
      then have "x \<noteq> c" using Cons.prems(2) by (auto simp: p)
      moreover have "cell_at (p # r) x = cell_at r' x" using Cons.prems(3) x by auto
      ultimately show "cell_at r x = cell_at r'' x"
        by (simp add: r' p p' cc cell_at_Cons)
    qed
  qed
  ultimately show ?case by (simp add: r' p p' cc)
qed

lemma not_stamp_median [simp]: "\<not> is_stamp (median cs)"
  by (simp add: median_def Let_def)

lemma not_flagged_median: "\<not> flagged (col_vals df c) (float_of (median (column df c)))"
  using median_not_flagged[of "col_vals df c"] by (simp add: median_def col_vals_def Let_def)

subsection \<open>Constant columns\<close>

lemma sum_list_all_zero:
  fixes f :: "real \<Rightarrow> real"
  shows "\<forall>x \<in> set xs. f x = 0 \<Longrightarrow> sum_list (map f xs) = 0"
  by (induction xs) auto

lemma constant_var:
  assumes "\<forall>x \<in> set xs. \<forall>y \<in> set xs. x = y"
  shows "var xs = 0"
proof (cases xs)
  case Nil
  then show ?thesis by (simp add: var_def)
next
  case (Cons c ys)
  then have all: "\<forall>x \<in> set xs. x = c" using assms by auto
  then have xs: "xs = replicate (length xs) c" by (simp add: replicate_length_same)
  have "sum_list xs = real (length xs) * c" by (subst xs) (simp add: sum_list_replicate)
  then have "mean xs = c" using Cons by (simp add: mean_def)
  then have "\<forall>x \<in> set xs. (x - mean xs)\<^sup>2 = 0" using all by simp
  then have "sum_list (map (\<lambda>x. (x - mean xs)\<^sup>2) xs) = 0" by (rule sum_list_all_zero)
  then show ?thesis by (simp add: var_def)
qed

lemma constant_not_flagged:
  assumes "\<forall>x \<in> set xs. \<forall>y \<in> set xs. x = y"
  shows "\<not> flagged xs v"
  using constant_var[OF assms] by (cases v) (simp_all add: flagged_Some)

lemma outlier_counts_Inr:
  assumes "outlier_counts df keys = Inr oc" and "k \<in> set keys"
    and "outlier_name k \<in> set (columns df)"
  shows "oc k = Some (col_sum (column df (outlier_name k)))"
  using assms by (auto simp: outlier_counts_def split: if_splits)

lemma median_present: "col_vals df k \<noteq> [] \<Longrightarrow> median (column df k) \<noteq> NaN"
  by (simp add: median_def col_vals_def Let_def)

lemma spec_keep_without_constant:
  assumes "\<forall>v. \<not> flagged (col_vals df k) v"
  shows "spec_keep df keys r
           = (spec_keep df (removeAll k keys) r \<and> (k \<in> set keys \<longrightarrow> spec_impute df keys r k \<noteq> NaN))"
  using assms by (auto simp: spec_keep_def spec_impute_def spec_flag_def)

subsection \<open>Runs on the example tables\<close>

text \<open>
  The runs are evaluated by rewriting. The flag of an entry is decided without the square
  root, by \<open>flagged_Some\<close>; the z-scores themselves stay unevaluated, in columns that the
  last step strips.
\<close>

lemmas eval_defs = frame_of_def detect_col_def astype_float_def column_def cell_at_def
     set_column_def zscore_def Let_def zscore_name_def outlier_name_def abs_gt3_flagged
     flagged_Some var_def mean_def col_sum_def outlier_counts_def dropna_def fillna_def
     count_na_def median_def median_val_def drop_flagged_def drop_diagnostic_def diagnostic_def
     suffix_to_prefix missing_report_def power2_eq_square

lemma ghi_detect: "detect [''GHI''] ghi_example = Inr (frame_of [''GHI'', ''GHI_zscore'', ''GHI_outlier'']
   [[Num 10, float_cell (z_of [10, 12, 11, 1000] (Some 10)), Flag False],
    [Num 12, float_cell (z_of [10, 12, 11, 1000] (Some 12)), Flag False],
    [Num 11, float_cell (z_of [10, 12, 11, 1000] (Some 11)), Flag False],
    [Num 1000, float_cell (z_of [10, 12, 11, 1000] (Some 1000)), Flag False],
    [NaN, float_cell (z_of [10, 12, 11, 1000] None), Flag False]])"
  by (simp add: ghi_example_def eval_defs del: z_of.simps)

lemma ghi_cleaned: "cleaned ghi_example [''GHI''] = Some (frame_of [''GHI'']
   [[Num 10], [Num 12], [Num 11], [Num 1000], [Num (23/2)]])"
  unfolding cleaned_def clean_def ghi_detect
  by (simp add: eval_defs del: z_of.simps)

lemma sensor_cleaned: "cleaned sensor_example [''GHI''] = Some sensor_cleaned"
  unfolding cleaned_def clean_def
  by (simp add: sensor_example_def sensor_cleaned_def eval_defs del: z_of.simps)

lemma qc_cleaned: "cleaned qc_example [''GHI''] = Some (frame_of [''GHI''] [[Num 1], [Num 2]])"
  unfolding cleaned_def clean_def
  by (simp add: qc_example_def eval_defs del: z_of.simps)

lemma spike_cleaned: "cleaned spike_example [''GHI''] = Some spike_cleaned"
  unfolding cleaned_def clean_def
  by (simp add: spike_example_def spike_cleaned_def eval_defs del: z_of.simps)

lemma spike_recleaned: "cleaned spike_cleaned [''GHI''] = Some spike_recleaned"
  unfolding cleaned_def clean_def
  by (simp add: spike_recleaned_def spike_cleaned_def eval_defs del: z_of.simps)

lemmas station_defs = station_cols_def key_cols_def reading_def

lemma ghi_station_cleaned: "cleaned ghi_station key_cols = Some ghi_station_cleaned"
  unfolding cleaned_def clean_def
  by (simp add: ghi_station_def ghi_station_cleaned_def station_defs eval_defs del: z_of.simps)

lemma qc_station_cleaned:
  "cleaned qc_station key_cols = Some (frame_of station_cols [reading 0 (Num 1), reading 1 (Num 2)])"
  unfolding cleaned_def clean_def
  by (simp add: qc_station_def station_defs eval_defs del: z_of.simps)

lemma partial_station_failure: "failure partial_station key_cols = Some (KeyError [''WSgust''])"
  unfolding failure_def clean_def
  by (simp add: partial_station_def station_defs eval_defs del: z_of.simps)

lemma partial_station_report: "map fst (missing_report partial_station) = [''GHI'']"
  by (simp add: partial_station_def station_defs eval_defs)

lemma empty_station_cleaned: "cleaned (frame_of station_cols []) key_cols = Some (frame_of station_cols [])"
  unfolding cleaned_def clean_def
  by (simp add: station_defs eval_defs del: z_of.simps)

lemma station_cleaned: "cleaned station_example key_cols = Some station_cleaned"
  unfolding cleaned_def clean_def
  by (simp add: station_example_def station_cleaned_def station_defs eval_defs del: z_of.simps)

lemma station_recleaned: "cleaned station_cleaned key_cols = Some station_recleaned"
  unfolding cleaned_def clean_def
  by (simp add: station_recleaned_def station_cleaned_def station_defs eval_defs del: z_of.simps)

lemma ghi_zscore: "z_of [10, 12, 11, 1000] (Some 1000) = Some (2967 / sqrt 2934371)"
proof -
  have m: "mean [10, 12, 11, 1000] = 1033 / 4" by (simp add: mean_def)
  have v: "var [10, 12, 11, 1000] = 2934371 / 16" by (simp add: var_def m power2_eq_square)
  have "sqrt 16 = 4" by (rule real_sqrt_unique) simp_all
  then have s: "std [10, 12, 11, 1000] = sqrt 2934371 / 4" by (simp add: std_def v real_sqrt_divide)
  have "sqrt 2934371 \<noteq> 0" by simp
  then show ?thesis by (simp add: m s)
qed

lemma ghi_zscore_bounds: "173 / 100 < 2967 / sqrt 2934371" "2967 / sqrt 2934371 < 174 / 100"
proof -
  have a: "1706 < sqrt 2934371" by (rule real_less_rsqrt) simp
  have b: "sqrt 2934371 < 1715" by (rule real_less_lsqrt) simp_all
  have p: "0 < sqrt 2934371" by simp
  show "173 / 100 < 2967 / sqrt 2934371" using b p by (simp add: field_simps)
  show "2967 / sqrt 2934371 < 174 / 100" using a p by (simp add: field_simps)
qed

section \<open>The claims\<close>

subsection \<open>C1: no missing value in a target column\<close>

text \<open>
  C1. After a run of the pipeline that completes, no row of the cleaned data set holds a
  missing value in a target column: the column is either stripped or free of \<^verbatim>\<open>nan\<close>.
\<close>

theorem cleaned_target_has_no_missing_value:
  assumes "cleaned df keys = Some out" and "c \<in> set keys" and "r \<in> set (rows out)"
  shows "map_of r c \<noteq> Some NaN"
proof -
  from assms(1) obtain mr oc where cl: "clean df keys = Inr (out, mr, oc)"
    by (auto simp: cleaned_Some)
  obtain d1 :: dataframe and r1 where "\<forall>c \<in> set keys. cell_at r1 c \<noteq> NaN"
    and r: "r = filter (\<lambda>(c, v). c \<notin> {c \<in> set (columns d1). diagnostic c}) r1"
    by (rule clean_rows_subset[OF cl assms(3)]) blast
  then have "cell_at r1 c \<noteq> NaN" using assms(2) by blast
  then have "map_of r1 c \<noteq> Some NaN" by (auto simp: cell_at_def)
  then show ?thesis unfolding r map_of_drop by simp
qed

theorem cleaned_target_has_no_missing_value_witness:
  "cleaned sensor_example [''GHI''] = Some sensor_cleaned
   \<and> ''GHI'' \<in> set [''GHI'']
   \<and> [(''Timestamp'', Stamp 1), (''GHI'', Num 6), (''Tamb'', NaN)] \<in> set (rows sensor_cleaned)
   \<and> map_of [(''Timestamp'', Stamp 1), (''GHI'', Num 6), (''Tamb'', NaN)] ''GHI'' \<noteq> Some NaN"
proof -
  have k: "''GHI'' \<in> set [''GHI'']" by simp
  have r: "[(''Timestamp'', Stamp 1), (''GHI'', Num 6), (''Tamb'', NaN)] \<in> set (rows sensor_cleaned)"
    by (simp add: sensor_cleaned_def frame_of_def)
  from cleaned_target_has_no_missing_value[OF sensor_cleaned k r] sensor_cleaned k r
  show ?thesis by blast
qed

subsection \<open>C3: a second run\<close>

text \<open>
  C3, as stated, fails: the output of a run can hold a value that only the recomputed
  statistics flag. Of thirteen readings, the first run drops the reading 1000 and imputes
  the missing one; on its output, the second run drops the reading 1.
\<close>

theorem second_run_drops_a_row_counterexample:
  "cleaned station_example key_cols = Some station_cleaned
   \<and> cleaned station_cleaned key_cols = Some station_recleaned
   \<and> length (rows station_cleaned) = 12 \<and> length (rows station_recleaned) = 11"
  using station_cleaned station_recleaned
  by (simp add: station_cleaned_def station_recleaned_def frame_of_def)

text \<open>
  C3, amended. On a data set that is the output of a run (of a well-formed input with
  distinct column names, for target names that end neither in \<^verbatim>\<open>_zscore\<close> nor in
  \<^verbatim>\<open>_outlier\<close>), a second run completes, imputes no cell and drops no row for a missing
  value: it returns the data set without the rows that a target column flags against the
  statistics recomputed on that data set. So the data set comes back unchanged exactly
  when it holds no such row.
\<close>

theorem second_run:
  assumes "cleaned df keys = Some out" and "\<forall>k \<in> set keys. \<not> diagnostic k"
    and "wf df" and "distinct (columns df)"
  shows "cleaned out keys
           = Some (out\<lparr>rows := filter (\<lambda>r. \<forall>k \<in> set keys. \<not> spec_flag out k r) (rows out)\<rparr>)
       \<and> (cleaned out keys = Some out
            \<longleftrightarrow> (\<forall>r \<in> set (rows out). \<forall>k \<in> set keys. \<not> spec_flag out k r))"
proof -
  from assms(1) obtain mr oc where cl: "clean df keys = Inr (out, mr, oc)"
    by (auto simp: cleaned_Some)
  from cl obtain d1 where d1: "detect keys df = Inr d1" by (rule clean_Inr)
  obtain H K where hk:
    "rows out = map H (filter K (rows df))"
    "\<And>r c. r \<in> set (rows df) \<Longrightarrow> c \<in> set (columns out) \<Longrightarrow> cell_at (H r) c = spec_impute df keys r c"
    "\<And>r k. r \<in> set (rows df) \<Longrightarrow> k \<in> set keys \<Longrightarrow> \<not> diagnostic k \<Longrightarrow>
        (K r \<longrightarrow> spec_impute df keys r k \<noteq> NaN \<and> \<not> spec_flag df k r)"
    "set keys \<subseteq> set (columns df) \<union> touched keys"
    by (rule clean_rows_char[OF cl]) blast
  note co = clean_columns[OF cl]
  have wo: "wf out" using cl assms(3) by (rule wf_clean)
  have kd: "set keys \<subseteq> set (columns df)"
    using hk(4) assms(2) not_diagnostic_untouched by blast
  then have kc: "set keys \<subseteq> set (columns out)" using assms(2) by (auto simp: co)
  have cell: "cell_at r k = spec_impute df keys r0 k \<and> spec_impute df keys r0 k \<noteq> NaN"
    if "r0 \<in> set (rows df)" "K r0" "r = H r0" "k \<in> set keys" for r r0 k
    using hk(2)[OF that(1), of k] hk(3)[OF that(1,4)] that kc assms(2) by auto
  have nn: "cell_at r k \<noteq> NaN" if "r \<in> set (rows out)" "k \<in> set keys" for r k
    using that cell by (auto simp: hk(1))
  have ns: "\<forall>k \<in> set keys. no_stamp out k"
  proof
    fix k assume k: "k \<in> set keys"
    then have "no_stamp df k" using detect_key_no_stamp[OF d1 k] kd assms(2) by auto
    then have "\<not> is_stamp (spec_impute df keys r0 k)" if "r0 \<in> set (rows df)" for r0
      using that by (simp add: spec_impute_def no_stamp_iff)
    then show "no_stamp out k" using cell k by (auto simp: no_stamp_iff hk(1))
  qed
  from clean_succeeds[OF kc ns] obtain out' mr' oc' where cl': "clean out keys = Inr (out', mr', oc')"
    by blast
  obtain H' K' where hk':
    "rows out' = map H' (filter K' (rows out))"
    "\<And>r c. r \<in> set (rows out) \<Longrightarrow> c \<in> set (columns out') \<Longrightarrow> cell_at (H' r) c = spec_impute out keys r c"
    "\<And>r. r \<in> set (rows out) \<Longrightarrow> \<forall>k \<in> set keys. \<not> diagnostic k \<Longrightarrow> K' r = spec_keep out keys r"
    by (rule clean_rows_char[OF cl']) blast
  have co': "columns out' = columns out" using clean_columns[OF cl'] by (simp add: co)
  have wo': "wf out'" using cl' wo by (rule wf_clean)
  have dc: "distinct (columns out)" using assms(4) by (simp add: co)
  have im: "spec_impute out keys r c = cell_at r c" if "r \<in> set (rows out)" for r c
    using nn[OF that] by (auto simp: spec_impute_def)
  have keep: "K' r = (\<forall>k \<in> set keys. \<not> spec_flag out k r)" if "r \<in> set (rows out)" for r
    using hk'(3)[OF that assms(2)] im[OF that] nn[OF that] by (auto simp: spec_keep_def)
  have same: "H' r = r" if r: "r \<in> set (rows out)" and k: "K' r" for r
  proof (rule row_eqI)
    have "H' r \<in> set (rows out')" using r k by (simp add: hk'(1))
    then have "map fst (H' r) = columns out" using wo' by (simp add: wf_def co')
    moreover have "map fst r = columns out" using wo r by (simp add: wf_def)
    ultimately show "map fst (H' r) = map fst r" by simp
    then show "distinct (map fst (H' r))" using dc \<open>map fst r = columns out\<close> by simp
    show "\<forall>c \<in> set (map fst (H' r)). cell_at (H' r) c = cell_at r c"
      using hk'(2)[OF r] im[OF r] \<open>map fst (H' r) = columns out\<close> by (simp add: co')
  qed
  have "rows out' = filter K' (rows out)"
    unfolding hk'(1) by (rule map_idI) (simp add: same)
  also have "\<dots> = filter (\<lambda>r. \<forall>k \<in> set keys. \<not> spec_flag out k r) (rows out)"
    using keep by (intro filter_cong) auto
  finally have ro: "rows out' = filter (\<lambda>r. \<forall>k \<in> set keys. \<not> spec_flag out k r) (rows out)" .
  have eq: "out' = out\<lparr>rows := filter (\<lambda>r. \<forall>k \<in> set keys. \<not> spec_flag out k r) (rows out)\<rparr>"
    using co' ro by (simp add: dataframe.equality)
  have c2: "cleaned out keys = Some out'" by (simp add: cleaned_def cl')
  have "out' = out \<longleftrightarrow> (\<forall>r \<in> set (rows out). \<forall>k \<in> set keys. \<not> spec_flag out k r)"
  proof
    assume "out' = out"
    then have "filter (\<lambda>r. \<forall>k \<in> set keys. \<not> spec_flag out k r) (rows out) = rows out"
      using ro by simp
    then show "\<forall>r \<in> set (rows out). \<forall>k \<in> set keys. \<not> spec_flag out k r"
      by (simp add: filter_id_conv)
  next
    assume "\<forall>r \<in> set (rows out). \<forall>k \<in> set keys. \<not> spec_flag out k r"
    then have "rows out' = rows out" using ro by (simp add: filter_id_conv)
    then show "out' = out" using co' by (simp add: dataframe.equality)
  qed
  then show ?thesis using c2 eq by simp
qed

theorem second_run_witness:
  "cleaned spike_example [''GHI''] = Some spike_cleaned
   \<and> \<not> diagnostic ''GHI'' \<and> wf spike_example \<and> distinct (columns spike_example)
   \<and> cleaned spike_cleaned [''GHI'']
       = Some (spike_cleaned\<lparr>rows :=
           filter (\<lambda>r. \<forall>k \<in> set [''GHI'']. \<not> spec_flag spike_cleaned k r) (rows spike_cleaned)\<rparr>)"
proof -
  have n: "\<not> diagnostic ''GHI''" by (simp add: diagnostic_def suffix_to_prefix)
  then have k: "\<forall>k \<in> set [''GHI'']. \<not> diagnostic k" by simp
  have w: "wf spike_example" by (simp add: wf_def spike_example_def frame_of_def)
  have d: "distinct (columns spike_example)" by (simp add: spike_example_def frame_of_def)
  from second_run[OF spike_cleaned k w d] spike_cleaned n w d show ?thesis by blast
qed

subsection \<open>C4: the order of the steps\<close>

text \<open>
  C4. For target columns whose names end neither in \<^verbatim>\<open>_zscore\<close> nor in \<^verbatim>\<open>_outlier\<close> (as
  the names of the notebook's \<^verbatim>\<open>key_cols\<close> do), every column of the cleaned data set is
  the column that the four steps give in their order: flags from the statistics of the
  input column with its missing values ignored, imputation by the median of the input
  column, removal of the rows that still miss a target value, removal of the rows flagged
  in step 1.
\<close>

theorem clean_follows_the_steps:
  assumes "cleaned df keys = Some out" and "\<forall>k \<in> set keys. \<not> diagnostic k"
    and "c \<in> set (columns out)"
  shows "column out c = spec_column df keys c"
proof -
  from assms(1) obtain mr oc where cl: "clean df keys = Inr (out, mr, oc)"
    by (auto simp: cleaned_Some)
  obtain H K where hk:
    "rows out = map H (filter K (rows df))"
    "\<And>r c. r \<in> set (rows df) \<Longrightarrow> c \<in> set (columns out) \<Longrightarrow> cell_at (H r) c = spec_impute df keys r c"
    "\<And>r. r \<in> set (rows df) \<Longrightarrow> \<forall>k \<in> set keys. \<not> diagnostic k \<Longrightarrow> K r = spec_keep df keys r"
    by (rule clean_rows_char[OF cl]) blast
  have "filter K (rows df) = filter (spec_keep df keys) (rows df)"
    using hk(3) assms(2) by (intro filter_cong) auto
  then have "rows out = map H (filter (spec_keep df keys) (rows df))" using hk(1) by simp
  then show ?thesis
    using hk(2) assms(3) by (simp add: column_def spec_column_def)
qed

theorem clean_follows_the_steps_witness:
  "cleaned spike_example [''GHI''] = Some spike_cleaned
   \<and> \<not> diagnostic ''GHI''
   \<and> ''GHI'' \<in> set (columns spike_cleaned)
   \<and> column spike_cleaned ''GHI'' = spec_column spike_example [''GHI''] ''GHI''"
proof -
  have n: "\<not> diagnostic ''GHI''" by (simp add: diagnostic_def suffix_to_prefix)
  then have k: "\<forall>k \<in> set [''GHI'']. \<not> diagnostic k" by simp
  have c: "''GHI'' \<in> set (columns spike_cleaned)" by (simp add: spike_cleaned_def frame_of_def)
  from clean_follows_the_steps[OF spike_cleaned k c] spike_cleaned n c show ?thesis by blast
qed

subsection \<open>C5: failure and completion\<close>

text \<open>
  C5, as stated, fails: the pipeline has no emptiness check. The run on three readings
  with an empty list of target columns completes, and so does the run on a table without
  rows that has the columns of \<^verbatim>\<open>key_cols\<close>.
\<close>

theorem empty_input_completes_counterexample:
  "cleaned sensor_example [] = Some sensor_example
   \<and> cleaned (frame_of station_cols []) key_cols = Some (frame_of station_cols [])"
proof -
  have "cleaned sensor_example [] = Some sensor_example"
    unfolding cleaned_def clean_def
    by (simp add: sensor_example_def eval_defs del: z_of.simps)
  then show ?thesis using empty_station_cleaned by simp
qed

text \<open>
  C5, amended. The pipeline raises no error for emptiness. It completes, and returns the
  cleaned data set with its reports, whenever every target column is a column of the data
  set and holds no timestamp. So it completes with an empty list of target columns, on
  any data set, and returns it without the columns whose names end in \<^verbatim>\<open>_zscore\<close> or
  \<^verbatim>\<open>_outlier\<close>, unchanged when it has none; and on a data set without rows that has every
  target column it completes and returns the columns not so named, without rows.
\<close>

theorem clean_completes:
  assumes "set keys \<subseteq> set (columns df)" and "\<forall>k \<in> set keys. no_stamp df k"
  shows "(\<exists>out mr oc. clean df keys = Inr (out, mr, oc))
       \<and> (keys = [] \<longrightarrow> cleaned df keys = Some (drop_diagnostic df))
       \<and> (keys = [] \<and> (\<forall>c \<in> set (columns df). \<not> diagnostic c) \<longrightarrow> cleaned df keys = Some df)
       \<and> (rows df = [] \<longrightarrow>
            cleaned df keys
              = Some \<lparr>columns = filter (\<lambda>c. \<not> diagnostic c) (columns df), rows = []\<rparr>)"
proof -
  from clean_succeeds[OF assms] obtain out mr oc where cl: "clean df keys = Inr (out, mr, oc)"
    by blast
  have "cleaned df keys = Some out" by (simp add: cleaned_def cl)
  then have "rows df = [] \<longrightarrow>
      cleaned df keys = Some \<lparr>columns = filter (\<lambda>c. \<not> diagnostic c) (columns df), rows = []\<rparr>"
    using cleaned_no_rows[OF cl] by simp
  then show ?thesis using cl cleaned_no_keys[of df] drop_diagnostic_id[of df] by auto
qed

theorem clean_completes_witness:
  "set [''GHI'', ''Tamb''] \<subseteq> set (columns sensor_example)
   \<and> no_stamp sensor_example ''GHI'' \<and> no_stamp sensor_example ''Tamb''
   \<and> (\<exists>out mr oc. clean sensor_example [''GHI'', ''Tamb''] = Inr (out, mr, oc))
   \<and> \<not> diagnostic ''Timestamp'' \<and> \<not> diagnostic ''GHI'' \<and> \<not> diagnostic ''Tamb''
   \<and> cleaned sensor_example [] = Some sensor_example
   \<and> rows (frame_of [''GHI''] []) = []
   \<and> cleaned (frame_of [''GHI''] []) [''GHI''] = Some \<lparr>columns = [''GHI''], rows = []\<rparr>"
proof -
  have s: "set [''GHI'', ''Tamb''] \<subseteq> set (columns sensor_example)"
    by (simp add: sensor_example_def frame_of_def)
  have n: "no_stamp sensor_example ''GHI''" "no_stamp sensor_example ''Tamb''"
    by (simp_all add: no_stamp_def sensor_example_def frame_of_def column_def cell_at_def)
  then have n': "\<forall>k \<in> set [''GHI'', ''Tamb'']. no_stamp sensor_example k" by simp
  have d: "\<not> diagnostic ''Timestamp''" "\<not> diagnostic ''GHI''" "\<not> diagnostic ''Tamb''"
    by (simp_all add: diagnostic_def suffix_to_prefix)
  then have d': "\<forall>c \<in> set (columns sensor_example). \<not> diagnostic c"
    by (simp add: sensor_example_def frame_of_def)
  have a: "\<exists>out mr oc. clean sensor_example [''GHI'', ''Tamb''] = Inr (out, mr, oc)"
    using clean_completes[OF s n'] by blast
  have "set [] \<subseteq> set (columns sensor_example)"
    and "\<forall>k \<in> set []. no_stamp sensor_example k" by simp_all
  from clean_completes[OF this] d'
  have b: "cleaned sensor_example [] = Some sensor_example" by blast
  have e: "rows (frame_of [''GHI''] []) = []" by (simp add: frame_of_def)
  have "set [''GHI''] \<subseteq> set (columns (frame_of [''GHI''] []))"
    and "\<forall>k \<in> set [''GHI'']. no_stamp (frame_of [''GHI''] []) k"
    by (simp_all add: frame_of_def no_stamp_def column_def)
  from clean_completes[OF this] e d(2)
  have c: "cleaned (frame_of [''GHI''] []) [''GHI''] = Some \<lparr>columns = [''GHI''], rows = []\<rparr>"
    by (simp add: frame_of_def)
  show ?thesis using s n a d b e c by blast
qed

subsection \<open>C6: the GHI scenario\<close>

text \<open>
  C6, as stated, fails: the z-score of the value 1000 among the four values present is
  below 3, so the value is not flagged and its row stays; the cleaned column has five
  rows.
\<close>

theorem ghi_scenario_counterexample:
  "\<not> flagged [10, 12, 11, 1000] (Some 1000)
   \<and> map_option (length \<circ> rows) (cleaned ghi_example [''GHI'']) = Some 5
   \<and> cleaned ghi_station key_cols = Some ghi_station_cleaned
   \<and> length (rows ghi_station_cleaned) = 5"
  using ghi_cleaned ghi_station_cleaned
  by (simp add: flagged_Some var_def mean_def power2_eq_square frame_of_def ghi_station_cleaned_def)

text \<open>
  C6, amended. For the column GHI = [10, 12, 11, 1000, nan] the pipeline imputes the
  missing value with the median 11.5 of [10, 12, 11, 1000], flags no value and drops no
  row: the z-score of 1000 among the four values present is \<open>2967 / sqrt 2934371\<close>,
  between 1.73 and 1.74. The cleaned column is [10, 12, 11, 1000, 11.5], with five rows,
  no missing value and no value flagged against the statistics of the input column; the
  outlier count reported for GHI is 0.
\<close>

theorem ghi_scenario:
  "col_vals ghi_example ''GHI'' = [10, 12, 11, 1000]
   \<and> median (column ghi_example ''GHI'') = Num (23 / 2)
   \<and> z_of [10, 12, 11, 1000] (Some 1000) = Some (2967 / sqrt 2934371)
   \<and> 173 / 100 < 2967 / sqrt 2934371 \<and> 2967 / sqrt 2934371 < 174 / 100
   \<and> cleaned ghi_example [''GHI'']
       = Some (frame_of [''GHI''] [[Num 10], [Num 12], [Num 11], [Num 1000], [Num (23 / 2)]])
   \<and> list_all (\<lambda>x. \<not> flagged [10, 12, 11, 1000] (Some x)) [10, 12, 11, 1000, 23 / 2]
   \<and> outliers_reported ghi_example [''GHI''] ''GHI'' = Some 0"
proof -
  have "col_vals ghi_example ''GHI'' = [10, 12, 11, 1000]"
    by (simp add: col_vals_def ghi_example_def frame_of_def column_def cell_at_def)
  moreover have "median (column ghi_example ''GHI'') = Num (23 / 2)"
    by (simp add: ghi_example_def eval_defs)
  moreover have "list_all (\<lambda>x. \<not> flagged [10, 12, 11, 1000] (Some x)) [10, 12, 11, 1000, 23 / 2]"
    by (simp add: flagged_Some var_def mean_def power2_eq_square)
  moreover have "outliers_reported ghi_example [''GHI''] ''GHI'' = Some 0"
    unfolding outliers_reported_def clean_def ghi_detect
    by (simp add: eval_defs del: z_of.simps)
  ultimately show ?thesis using ghi_cleaned ghi_zscore ghi_zscore_bounds by blast
qed

subsection \<open>C7: a constant column\<close>

text \<open>
  C7. A target column whose values present are all identical does not make the pipeline
  fail: the run completes, the detection pass flags no row for that column and the outlier
  count reported for it is zero. No row is dropped on its account: the rows of the cleaned
  data set are those that the steps keep for the other target columns alone, provided the
  column has a value at all; a column without any value has no variance, its flags drop
  no row either, and its rows go for their missing values. (For target columns that are
  present and hold no timestamp; the statement on the flag column and the count needs that
  the name of the column ends neither in \<^verbatim>\<open>_zscore\<close> nor in \<^verbatim>\<open>_outlier\<close>, the statement on
  the rows that no name of a target column does, as in the notebook's \<^verbatim>\<open>key_cols\<close>.)
\<close>

theorem constant_column_has_no_outliers:
  assumes "set keys \<subseteq> set (columns df)" and "\<forall>c \<in> set keys. no_stamp df c"
    and "k \<in> set keys" and "\<not> diagnostic k"
    and "\<forall>x \<in> set (col_vals df k). \<forall>y \<in> set (col_vals df k). x = y"
  shows "\<exists>out. cleaned df keys = Some out
       \<and> (\<exists>d1. detect keys df = Inr d1
              \<and> column d1 (outlier_name k) = replicate (length (rows df)) (Flag False))
       \<and> (\<forall>r \<in> set (rows df). \<not> spec_flag df k r)
       \<and> outliers_reported df keys k = Some 0
       \<and> ((\<forall>c \<in> set keys. \<not> diagnostic c) \<longrightarrow>
             length (rows out)
               = length (filter (\<lambda>r. spec_keep df (removeAll k keys) r
                                     \<and> spec_impute df keys r k \<noteq> NaN) (rows df))
             \<and> (\<forall>c \<in> set (columns out). column out c
                   = map (\<lambda>r. spec_impute df keys r c)
                       (filter (\<lambda>r. spec_keep df (removeAll k keys) r
                                     \<and> spec_impute df keys r k \<noteq> NaN) (rows df))))
       \<and> ((\<forall>c \<in> set keys. \<not> diagnostic c) \<and> col_vals df k \<noteq> [] \<longrightarrow>
             length (rows out) = length (filter (spec_keep df (removeAll k keys)) (rows df))
             \<and> (\<forall>c \<in> set (columns out). column out c
                   = map (\<lambda>r. spec_impute df keys r c)
                       (filter (spec_keep df (removeAll k keys)) (rows df))))"
proof -
  from clean_succeeds[OF assms(1,2)] obtain out mr oc where cl: "clean df keys = Inr (out, mr, oc)"
    by blast
  from cl obtain d1 where d1: "detect keys df = Inr d1" and oc: "outlier_counts d1 keys = Inr oc"
    by (rule clean_Inr)
  have kd: "k \<in> set (columns df)" using assms(1,3) by auto
  have nf: "\<not> flagged (col_vals df k) v" for v by (rule constant_not_flagged[OF assms(5)])
  obtain F where F: "rows d1 = map F (rows df)"
    "\<And>r k. k \<in> set keys \<Longrightarrow> k \<in> set (columns df) \<Longrightarrow> \<not> diagnostic k \<Longrightarrow>
        cell_at (F r) (outlier_name k) = Flag (flagged (col_vals df k) (float_of (cell_at r k)))"
    using detect_rows[OF d1] by blast
  have col: "column d1 (outlier_name k) = replicate (length (rows df)) (Flag False)"
    by (simp add: column_def F(1) F(2)[OF assms(3) kd assms(4)] nf o_def map_replicate_const)
  have "oc k = Some (col_sum (column d1 (outlier_name k)))"
    using oc assms(3) detect_outlier_column[OF d1 assms(3) kd] by (rule outlier_counts_Inr)
  then have "oc k = Some 0" by (simp add: col col_sum_def sum_list_replicate)
  then have rep: "outliers_reported df keys k = Some 0" by (simp add: outliers_reported_def cl)
  have cd: "cleaned df keys = Some out" by (simp add: cleaned_def cl)
  obtain H K where hk:
    "rows out = map H (filter K (rows df))"
    "\<And>r c. r \<in> set (rows df) \<Longrightarrow> c \<in> set (columns out) \<Longrightarrow> cell_at (H r) c = spec_impute df keys r c"
    "\<And>r. r \<in> set (rows df) \<Longrightarrow> \<forall>k \<in> set keys. \<not> diagnostic k \<Longrightarrow> K r = spec_keep df keys r"
    by (rule clean_rows_char[OF cl]) blast
  let ?A = "\<lambda>r. spec_keep df (removeAll k keys) r \<and> spec_impute df keys r k \<noteq> NaN"
  let ?B = "spec_keep df (removeAll k keys)"
  have sk: "spec_keep df keys r = ?A r" for r
    using spec_keep_without_constant[of df k keys r] nf assms(3) by simp
  have rowsA: "rows out = map H (filter ?A (rows df))" if "\<forall>c \<in> set keys. \<not> diagnostic c"
  proof -
    have "filter K (rows df) = filter ?A (rows df)"
      using hk(3) that sk by (intro filter_cong) auto
    then show ?thesis using hk(1) by simp
  qed
  have AB: "?A r = ?B r" if "col_vals df k \<noteq> []" for r
    using median_present[OF that] assms(3) by (auto simp: spec_impute_def)
  have a: "length (rows out) = length (filter ?A (rows df))
           \<and> (\<forall>c \<in> set (columns out). column out c
                 = map (\<lambda>r. spec_impute df keys r c) (filter ?A (rows df)))"
    if "\<forall>c \<in> set keys. \<not> diagnostic c"
    using rowsA[OF that] hk(2) by (simp add: column_def)
  have b: "length (rows out) = length (filter ?B (rows df))
           \<and> (\<forall>c \<in> set (columns out). column out c
                 = map (\<lambda>r. spec_impute df keys r c) (filter ?B (rows df)))"
    if "\<forall>c \<in> set keys. \<not> diagnostic c" "col_vals df k \<noteq> []"
  proof -
    have "filter ?A (rows df) = filter ?B (rows df)"
      using AB[OF that(2)] by (intro filter_cong) auto
    then show ?thesis using a[OF that(1)] by simp
  qed
  have "\<forall>r \<in> set (rows df). \<not> spec_flag df k r" using nf by (simp add: spec_flag_def)
  then show ?thesis using cd d1 col rep a b by blast
qed

theorem constant_column_has_no_outliers_witness:
  "set [''GHI'', ''WS''] \<subseteq> set (columns const_example)
   \<and> no_stamp const_example ''GHI'' \<and> no_stamp const_example ''WS''
   \<and> ''GHI'' \<in> set [''GHI'', ''WS''] \<and> \<not> diagnostic ''GHI'' \<and> \<not> diagnostic ''WS''
   \<and> col_vals const_example ''GHI'' = [5, 5, 5]
   \<and> (\<exists>out. cleaned const_example [''GHI'', ''WS''] = Some out
          \<and> outliers_reported const_example [''GHI'', ''WS''] ''GHI'' = Some 0
          \<and> length (rows out)
              = length (filter (spec_keep const_example (removeAll ''GHI'' [''GHI'', ''WS'']))
                          (rows const_example)))"
proof -
  have s: "set [''GHI'', ''WS''] \<subseteq> set (columns const_example)"
    by (simp add: const_example_def frame_of_def)
  have n: "no_stamp const_example ''GHI''" "no_stamp const_example ''WS''"
    by (simp_all add: no_stamp_def const_example_def frame_of_def column_def cell_at_def)
  then have n': "\<forall>c \<in> set [''GHI'', ''WS'']. no_stamp const_example c" by simp
  have k: "''GHI'' \<in> set [''GHI'', ''WS'']" by simp
  have d: "\<not> diagnostic ''GHI''" "\<not> diagnostic ''WS''"
    by (simp_all add: diagnostic_def suffix_to_prefix)
  then have d': "\<forall>c \<in> set [''GHI'', ''WS'']. \<not> diagnostic c" by simp
  have v: "col_vals const_example ''GHI'' = [5, 5, 5]"
    by (simp add: col_vals_def const_example_def frame_of_def column_def cell_at_def)
  then have c: "\<forall>x \<in> set (col_vals const_example ''GHI''). \<forall>y \<in> set (col_vals const_example ''GHI''). x = y"
    and ne: "col_vals const_example ''GHI'' \<noteq> []" by simp_all
  from constant_column_has_no_outliers[OF s n' k d(1) c] d' ne
  obtain out where "cleaned const_example [''GHI'', ''WS''] = Some out"
    "outliers_reported const_example [''GHI'', ''WS''] ''GHI'' = Some 0"
    "length (rows out)
       = length (filter (spec_keep const_example (removeAll ''GHI'' [''GHI'', ''WS'']))
                   (rows const_example))"
    by blast
  then show ?thesis using s n k d v by blast
qed

subsection \<open>C8: an absent target column\<close>

text \<open>
  C8, as stated, fails: with a target column that the input lacks, the call
  \<^verbatim>\<open>dropna(subset=key_cols)\<close> raises a KeyError, and the missing value report, which
  has one line per column of the input, does not list the absent column.
\<close>

theorem absent_column_counterexample:
  "''WSgust'' \<in> set key_cols \<and> ''WSgust'' \<notin> set (columns partial_station)
   \<and> failure partial_station key_cols = Some (KeyError [''WSgust''])
   \<and> map fst (missing_report partial_station) = [''GHI'']"
  using partial_station_failure partial_station_report
  by (simp add: partial_station_def station_defs frame_of_def)

text \<open>
  C8, amended. A target column that the input lacks (and that no step creates) is skipped
  by the detection loop and by the imputation loop, which treat the other target columns
  as they do when the absent column is not listed; neither loop raises on its account.
  The missing value report has no line for it.
\<close>

theorem absent_column_skipped:
  assumes "c \<notin> set (columns df)" and "c \<notin> touched keys"
  shows "detect keys df = detect (removeAll c keys) df
       \<and> impute keys df = impute (removeAll c keys) df
       \<and> c \<notin> fst ` set (missing_report df)"
  using detect_skip[OF assms] impute_skip[OF assms(1)] missing_report_columns[of df] assms(1)
  by auto

theorem absent_column_skipped_witness:
  "''WSgust'' \<notin> set (columns partial_station) \<and> ''WSgust'' \<notin> touched key_cols
   \<and> detect key_cols partial_station = detect (removeAll ''WSgust'' key_cols) partial_station
   \<and> impute key_cols partial_station = impute (removeAll ''WSgust'' key_cols) partial_station
   \<and> ''WSgust'' \<notin> fst ` set (missing_report partial_station)"
proof -
  have a: "''WSgust'' \<notin> set (columns partial_station)"
    by (simp add: partial_station_def station_defs frame_of_def)
  have b: "''WSgust'' \<notin> touched key_cols"
    by (simp add: touched_def key_cols_def zscore_name_def outlier_name_def)
  from absent_column_skipped[OF a b] a b show ?thesis by simp
qed

subsection \<open>C9: the columns of the result\<close>

text \<open>
  C9, as stated, fails: a column of the input whose own name ends in \<^verbatim>\<open>_outlier\<close> is
  stripped with the intermediate columns.
\<close>

theorem input_column_stripped_counterexample:
  "columns qc_station = station_cols @ [''Sensor_outlier'']
   \<and> cleaned qc_station key_cols
       = Some (frame_of station_cols [reading 0 (Num 1), reading 1 (Num 2)])"
  using qc_station_cleaned by (simp add: qc_station_def frame_of_def)

text \<open>
  C9, amended. The cleaned data set has exactly the columns of the input whose names end
  neither in \<^verbatim>\<open>_zscore\<close> nor in \<^verbatim>\<open>_outlier\<close>, in their original order; no column is
  added, and every row of a well-formed input keeps exactly these columns.
\<close>

theorem cleaned_columns:
  assumes "cleaned df keys = Some out"
  shows "columns out = filter (\<lambda>c. \<not> diagnostic c) (columns df) \<and> (wf df \<longrightarrow> wf out)"
proof -
  from assms obtain mr oc where cl: "clean df keys = Inr (out, mr, oc)"
    by (auto simp: cleaned_Some)
  show ?thesis using clean_columns[OF cl] wf_clean[OF cl] by blast
qed

theorem cleaned_columns_witness:
  "cleaned qc_example [''GHI''] = Some (frame_of [''GHI''] [[Num 1], [Num 2]])
   \<and> columns (frame_of [''GHI''] [[Num 1], [Num 2]])
       = filter (\<lambda>c. \<not> diagnostic c) (columns qc_example)
   \<and> wf qc_example \<and> wf (frame_of [''GHI''] [[Num 1], [Num 2]])"
proof -
  have w: "wf qc_example" by (simp add: wf_def qc_example_def frame_of_def)
  from cleaned_columns[OF qc_cleaned] w qc_cleaned show ?thesis by blast
qed

subsection \<open>C10: rows and cells of the result\<close>

text \<open>
  C10. The rows of the cleaned data set are the rows of a subsequence of the input, in
  the input's order; in each of them every cell of a remaining column holds its original
  value, except that a missing cell of a target column holds the median of the values
  present in that column of the input.
\<close>

theorem cleaned_rows_subsequence:
  assumes "cleaned df keys = Some out"
  shows "\<exists>kept. subseq kept (rows df) \<and>
           list_all2 (\<lambda>r r'. \<forall>c \<in> set (columns out). cell_at r' c = spec_impute df keys r c)
             kept (rows out)"
proof -
  from assms(1) obtain mr oc where cl: "clean df keys = Inr (out, mr, oc)"
    by (auto simp: cleaned_Some)
  obtain H K where hk:
    "rows out = map H (filter K (rows df))"
    "\<And>r c. r \<in> set (rows df) \<Longrightarrow> c \<in> set (columns out) \<Longrightarrow> cell_at (H r) c = spec_impute df keys r c"
    by (rule clean_rows_char[OF cl]) blast
  have "list_all2 (\<lambda>r r'. \<forall>c \<in> set (columns out). cell_at r' c = spec_impute df keys r c)
          (filter K (rows df)) (rows out)"
    unfolding hk(1) by (simp add: list_all2_map2 list_all2_same hk(2))
  then show ?thesis by (intro exI[of _ "filter K (rows df)"]) simp
qed

theorem cleaned_rows_subsequence_witness:
  "cleaned sensor_example [''GHI''] = Some sensor_cleaned
   \<and> (\<exists>kept. subseq kept (rows sensor_example) \<and>
           list_all2 (\<lambda>r r'. \<forall>c \<in> set (columns sensor_cleaned).
                         cell_at r' c = spec_impute sensor_example [''GHI''] r c)
             kept (rows sensor_cleaned))"
  using cleaned_rows_subsequence[OF sensor_cleaned] sensor_cleaned by blast

end
